theory Spec2Isabelle
  imports Main "HOL-Library.Sublist"
begin

section \<open>The region-of-interest mask built by \<open>run_freeview\<close>\<close>

text \<open>
  \<^verbatim>\<open>
  orig_image = nib.load(image)
  mask = np.ones(orig_image.shape)
  mask[int(center[0])-20:int(center[0])+20,
       int(center[1])-20:int(center[1])+20,
       int(center[2])-20:int(center[2])+20] = 0
  \<close>
  A volume is addressed by voxel triples below its shape. The centre is given by the three
  integers \<open>int(center[i])\<close>. A slice bound \<open>a\<close> on an axis of length \<open>n\<close> is resolved
  the way Python and numpy resolve it for a step of one: a negative bound counts from the
  end of the axis, and the result is clamped to \<open>0..n\<close>. Assigning to a slice never
  raises; reading a voxel outside the shape does (\<open>None\<close>).
\<close>

type_synonym shape = "nat \<times> nat \<times> nat"
type_synonym center = "int \<times> int \<times> int"
type_synonym voxel = "nat \<times> nat \<times> nat"

definition slice_index :: "nat \<Rightarrow> int \<Rightarrow> int" where
  "slice_index n a = (if a < 0 then max 0 (a + int n) else min a (int n))"

definition zeroed_axis :: "nat \<Rightarrow> int \<Rightarrow> nat \<Rightarrow> bool" where
  "zeroed_axis n c i \<longleftrightarrow> slice_index n (c - 20) \<le> int i \<and> int i < slice_index n (c + 20)"

fun in_shape :: "shape \<Rightarrow> voxel \<Rightarrow> bool" where
  "in_shape (n0, n1, n2) (i, j, k) \<longleftrightarrow> i < n0 \<and> j < n1 \<and> k < n2"

fun mask :: "shape \<Rightarrow> center \<Rightarrow> voxel \<Rightarrow> nat option" where
  "mask (n0, n1, n2) (c0, c1, c2) (i, j, k) =
     (if i < n0 \<and> j < n1 \<and> k < n2
      then Some (if zeroed_axis n0 c0 i \<and> zeroed_axis n1 c1 j \<and> zeroed_axis n2 c2 k
                 then 0 else 1)
      else None)"

text \<open>
  The cube of the specification, in its words: 40 voxels per side, centred on the
  coordinate, that is the voxels whose three indices each lie in \<open>c - 20 ..< c + 20\<close>.
\<close>

fun in_cube :: "center \<Rightarrow> voxel \<Rightarrow> bool" where
  "in_cube (c0, c1, c2) (i, j, k) \<longleftrightarrow>
     c0 - 20 \<le> int i \<and> int i < c0 + 20 \<and>
     c1 - 20 \<le> int j \<and> int j < c1 + 20 \<and>
     c2 - 20 \<le> int k \<and> int k < c2 + 20"

text \<open>All voxels of a volume, in row-major order.\<close>

fun voxels :: "shape \<Rightarrow> voxel list" where
  "voxels (n0, n1, n2) = concat (map (\<lambda>i. concat (map (\<lambda>j. map (\<lambda>k. (i, j, k)) [0..<n2]) [0..<n1])) [0..<n0])"

fun is_zero :: "shape \<Rightarrow> center \<Rightarrow> voxel \<Rightarrow> bool" where
  "is_zero sh c v \<longleftrightarrow> mask sh c v = Some 0"

section \<open>Console, events and outcomes\<close>

text \<open>
  What \<open>input()\<close> can deliver: a line typed by the operator, or a \<open>KeyboardInterrupt\<close>
  raised while it waits. When the list is exhausted \<open>input()\<close> raises \<open>EOFError\<close>.
\<close>

datatype console = Line string | Interrupt

text \<open>The two errors \<open>pd.read_csv\<close> raises on a file it cannot read as a table.\<close>

datatype read_error = EmptyDataError | ParserError

datatype error =
  KeyError string | NameError string | ValueError string | EOFError | ReadError read_error

text \<open>
  The observable actions of a run, in the order the statements execute. A viewer session
  is named by the number of its launch (it stands for both the process handle and the
  \<open>uid\<close> that \<open>run_freeview\<close> returns). \<open>Ask h k\<close> is \<open>input()\<close> of prompt \<open>k\<close> called while
  session \<open>h\<close> is the current one, \<open>Append h line\<close> is the write of the record of session
  \<open>h\<close>. Sleeps are in tenths of a second. Informational prints other than the ones listed
  are not traced.
\<close>

datatype event =
    Launch nat string string string
  | Hide nat
  | Sleep nat
  | Reveal nat
  | Ask nat nat
  | Invalid string
  | Stopping
  | Sigterm nat
  | Killpg nat
  | CloseWin nat
  | Append nat string
  | UserUnknown

datatype status = Completed | Exit nat | Crash error

datatype 'a verdict = Accept 'a | Reject | Raise error

datatype 'a outcome = Answered 'a "console list" | Stopped | Failed error

section \<open>\<open>stop_labeling\<close>\<close>

text \<open>
  \<^verbatim>\<open>
  for p in processes:
      if sys.platform == "darwin": os.killpg(os.getpgid(p.pid), signal.SIGTERM)
      else: p.send_signal(signal.SIGTERM)
  time.sleep(1)
  sys.exit(0)
  \<close>
  The function returns the events; the exit is the outcome \<open>Stopped\<close> of the caller.
\<close>

definition terminate :: "bool \<Rightarrow> nat \<Rightarrow> event" where
  "terminate darwin p = (if darwin then Killpg p else Sigterm p)"

definition stop_labeling :: "bool \<Rightarrow> nat list \<Rightarrow> event list" where
  "stop_labeling darwin processes = Stopping # map (terminate darwin) processes @ [Sleep 10]"

section \<open>\<open>question_loop\<close>\<close>

text \<open>
  The source writes the same loop five times, once per question:
  \<^verbatim>\<open>
  valid = False
  try:
      while not valid:
          answer = input(...)
          if answer == 'stop': stop_labeling(p)
          elif answer in [...]: valid = True; <set the label>
          else: print('[ERROR] ... is an invalid input.')
  except KeyboardInterrupt:
      stop_labeling(p)
  \<close>
  \<open>prompt\<close> is that loop, with the question number and the question's own
  \<open>elif\<close> branch as parameters. The five branches follow.
\<close>

fun prompt :: "bool \<Rightarrow> nat list \<Rightarrow> nat \<Rightarrow> (string \<Rightarrow> 'a verdict) \<Rightarrow> console list
    \<Rightarrow> event list \<times> 'a outcome" where
  "prompt darwin p k accept [] = ([Ask (hd p) k], Failed EOFError)"
| "prompt darwin p k accept (Interrupt # ins) =
     (Ask (hd p) k # stop_labeling darwin p, Stopped)"
| "prompt darwin p k accept (Line answer # ins) =
     (if answer = ''stop'' then (Ask (hd p) k # stop_labeling darwin p, Stopped)
      else case accept answer of
             Accept v \<Rightarrow> ([Ask (hd p) k], Answered v ins)
           | Raise e \<Rightarrow> ([Ask (hd p) k], Failed e)
           | Reject \<Rightarrow>
               (case prompt darwin p k accept ins of
                  (ev, r) \<Rightarrow> (Ask (hd p) k # Invalid answer # ev, r)))"

definition accept_best :: "string list \<Rightarrow> string \<Rightarrow> string verdict" where
  "accept_best methods answer =
     (if answer \<in> set [''1'', ''2'']
      then (if answer = ''1'' then Accept (methods ! 0)
            else if answer = ''2'' then Accept (methods ! 1)
            else Raise (ValueError answer))
      else Reject)"

definition accept_confidence :: "string \<Rightarrow> string verdict" where
  "accept_confidence answer =
     (if answer \<in> set [''1'', ''2'', ''3'']
      then (if answer = ''1'' then Accept ''random''
            else if answer = ''2'' then Accept ''uncertain''
            else if answer = ''3'' then Accept ''certain''
            else Raise (ValueError answer))
      else Reject)"

text \<open>\<open>int(answer)\<close> on a string of decimal digits.\<close>

definition py_int :: "string \<Rightarrow> nat" where
  "py_int s = foldl (\<lambda>n c. 10 * n + (of_char c - 48)) 0 s"

definition accept_difference :: "string \<Rightarrow> nat verdict" where
  "accept_difference answer =
     (if answer \<in> set [''0'', ''1'', ''2'', ''3''] then Accept (py_int answer) else Reject)"

definition accept_fail :: "string list \<Rightarrow> string \<Rightarrow> string verdict" where
  "accept_fail methods answer =
     (if answer \<in> set [''0'', ''1'', ''2'', ''3'']
      then (if answer = ''0'' then Accept ''None''
            else if answer = ''1'' then Accept (methods ! 0)
            else if answer = ''2'' then Accept (methods ! 1)
            else if answer = ''3'' then Accept (methods ! 0 @ ''+'' @ methods ! 1)
            else Raise (ValueError answer))
      else Reject)"

definition accept_comment :: "string \<Rightarrow> string verdict" where
  "accept_comment answer = Accept answer"

text \<open>Sequencing: the next loop starts on the input left by the previous one.\<close>

fun and_then :: "event list \<times> 'a outcome \<Rightarrow> ('a \<Rightarrow> console list \<Rightarrow> event list \<times> 'b outcome)
    \<Rightarrow> event list \<times> 'b outcome" where
  "and_then (ev, Answered v ins) f = (case f v ins of (ev', r) \<Rightarrow> (ev @ ev', r))"
| "and_then (ev, Stopped) f = (ev, Stopped)"
| "and_then (ev, Failed e) f = (ev, Failed e)"

type_synonym answers = "string \<times> string \<times> nat \<times> string \<times> string"

definition question_loop :: "bool \<Rightarrow> nat list \<Rightarrow> string list \<Rightarrow> console list
    \<Rightarrow> event list \<times> answers outcome" where
  "question_loop darwin p methods ins =
     and_then (prompt darwin p 1 (accept_best methods) ins) (\<lambda>best ins.
     and_then (prompt darwin p 2 accept_confidence ins) (\<lambda>confidence ins.
     and_then (prompt darwin p 3 accept_difference ins) (\<lambda>difference_strength ins.
     and_then (prompt darwin p 4 (accept_fail methods) ins) (\<lambda>fail ins.
     and_then (prompt darwin p 5 accept_comment ins) (\<lambda>comment ins.
       ([], Answered (best, confidence, difference_strength, fail, comment) ins))))))"

section \<open>The input table, the arguments and the host\<close>

text \<open>
  A row of the input table (\<open>diff_areas\<close>): the index column \<open>subject_id\<close>, the column
  \<open>ID\<close>, the image path, one segmentation path per method column (looked up by the
  method's name, \<open>KeyError\<close> when the column is absent) and \<open>num_differences\<close> as it is
  printed into the record.

  A value of an identifier column is an integer or a text, according to the type pandas
  gave the column when it read the file: integers when every entry of the column is an
  integer, texts when one is not. Two values are equal (\<open>isin\<close>) when they are the same
  integer or the same text; an integer is never equal to a text.
\<close>

datatype cell = Number int | Text string

record row =
  subject_id :: string
  ID :: cell
  image :: string
  segmentation :: "string \<rightharpoonup> string"
  num_differences :: string

record args =
  met1 :: string
  met2 :: string
  user :: "string option"
  fs :: "string option"

text \<open>
  The host: the platform, whether \<open>xdotool\<close> is installed, the process environment, and
  what a run takes from outside the program: for the \<open>n\<close>-th call of
  \<open>random.shuffle(method_idx)\<close> whether it exchanges the two entries, for the \<open>n\<close>-th
  labelled subject the text of \<open>label_time\<close> (a Python float), and what
  \<open>pd.read_csv(results_file, header=None).iloc[:,0].tolist()\<close> makes of the lines of a
  results file: the values of its first column, or the error raised.
\<close>

record host =
  darwin :: bool
  xdotool_installed :: bool
  environ :: "string \<rightharpoonup> string"
  swaps :: "nat \<Rightarrow> bool"
  label_time :: "nat \<Rightarrow> string"
  first_column :: "string list \<Rightarrow> read_error + cell list"

section \<open>The results file\<close>

text \<open>
  The results file is the list of its lines, each as it was written (newline included);
  \<open>None\<close> when the file does not exist.
\<close>

definition append_line :: "string list option \<Rightarrow> string \<Rightarrow> string list option" where
  "append_line file line = Some (case file of None \<Rightarrow> [line] | Some ls \<Rightarrow> ls @ [line])"

text \<open>\<open>str\<close> of a natural number, as an f-string prints it.\<close>

fun str_nat :: "nat \<Rightarrow> string" where
  "str_nat n = (if n < 10 then [''0123456789'' ! n]
                else str_nat (n div 10) @ [''0123456789'' ! (n mod 10)])"

declare str_nat.simps [simp del]

text \<open>\<open>str\<close> of an identifier: an integer in decimal, a text as it is.\<close>

definition str_cell :: "cell \<Rightarrow> string" where
  "str_cell c =
     (case c of
        Number i \<Rightarrow> (if i < 0 then CHR ''-'' # str_nat (nat (- i)) else str_nat (nat i))
      | Text t \<Rightarrow> t)"

text \<open>\<open>comment.replace(',', ';')\<close>\<close>

definition sanitize :: "string \<Rightarrow> string" where
  "sanitize comment = map (\<lambda>c. if c = CHR '','' then CHR '';'' else c) comment"

text \<open>
  \<^verbatim>\<open>
  f"{row['ID']},{methods[0]},{methods[1]},{best},{confidence},{difference_strength},
    {fail},{comment},{args.user},{label_time},{num_differences}\n"
  \<close>
\<close>

definition record_fields :: "row \<Rightarrow> string list \<Rightarrow> answers \<Rightarrow> string \<Rightarrow> string \<Rightarrow> string list" where
  "record_fields r methods ans usr time =
     (case ans of (best, confidence, difference_strength, fail, comment) \<Rightarrow>
        [str_cell (ID r), methods ! 0, methods ! 1, best, confidence,
         str_nat difference_strength,
         fail, comment, usr, time, num_differences r])"

fun join :: "string list \<Rightarrow> string" where
  "join [] = []"
| "join [f] = f"
| "join (f # g # rest) = f @ CHR '','' # join (g # rest)"

definition record_line :: "row \<Rightarrow> string list \<Rightarrow> answers \<Rightarrow> string \<Rightarrow> string \<Rightarrow> string" where
  "record_line r methods ans usr time = join (record_fields r methods ans usr time) @ [CHR 0x0A]"

text \<open>
  The record the loop writes for the answers of \<open>question_loop\<close>: the comment is
  sanitized first (line 417), the other fields are written as they are.
\<close>

definition written_line :: "row \<Rightarrow> string list \<Rightarrow> answers \<Rightarrow> string \<Rightarrow> string \<Rightarrow> string" where
  "written_line r methods ans usr time =
     (case ans of (best, confidence, difference_strength, fail, comment) \<Rightarrow>
        record_line r methods (best, confidence, difference_strength, fail, sanitize comment) usr time)"

text \<open>Reading a line back: drop the final newline, split at every comma (\<open>str.split(',')\<close>).\<close>

fun split_on :: "char \<Rightarrow> string \<Rightarrow> string list" where
  "split_on d [] = [[]]"
| "split_on d (c # cs) =
     (if c = d then [] # split_on d cs
      else (case split_on d cs of f # rest \<Rightarrow> (c # f) # rest | [] \<Rightarrow> [[c]]))"

definition parse_line :: "string \<Rightarrow> string list" where
  "parse_line line = split_on (CHR '','') (butlast line)"

section \<open>Start-up: the viewer install root and the worklist\<close>

text \<open>
  \<^verbatim>\<open>
  if args.fs is None:
      if os.environ["FREESURFER_HOME"] is not None:
          freesurfer_path = os.environ["FREESURFER_HOME"]
      else:
          paths_to_try = [...]
          for p in paths_to_try:
              if os.path.isdir(paths_to_try): freesurfer_path = p; break
  \<close>
  \<open>os.environ[k]\<close> raises \<open>KeyError\<close> for an unset variable and is a string otherwise,
  never \<open>None\<close>: the \<open>else\<close> branch cannot be reached. When \<open>--fs\<close> is given, nothing is
  assigned: \<open>freesurfer_path\<close> stays unbound (\<open>None\<close> here) and its first use raises
  \<open>NameError\<close>.
\<close>

definition resolve_freesurfer_path :: "args \<Rightarrow> host \<Rightarrow> error + string option" where
  "resolve_freesurfer_path a h =
     (case fs a of
        Some given \<Rightarrow> Inr None
      | None \<Rightarrow>
          (case environ h ''FREESURFER_HOME'' of
             None \<Rightarrow> Inl (KeyError ''FREESURFER_HOME'')
           | Some v \<Rightarrow> Inr (Some v)))"

text \<open>\<open>diff_areas[~diff_areas['ID'].isin(already_labeled_subjs)]\<close>\<close>

definition remove_labeled :: "cell list \<Rightarrow> row list \<Rightarrow> row list" where
  "remove_labeled already_labeled_subjs diff_areas =
     filter (\<lambda>r. ID r \<notin> set already_labeled_subjs) diff_areas"

text \<open>
  The table the loop runs over (lines 345-353): all rows when there is no results file;
  otherwise the first column of the file is read, which may raise, and the rows whose
  \<open>ID\<close> is among its values are removed.
\<close>

definition worklist :: "host \<Rightarrow> string list option \<Rightarrow> row list \<Rightarrow> error + row list" where
  "worklist h file diff_areas =
     (case file of
        None \<Rightarrow> Inr diff_areas
      | Some lines \<Rightarrow>
          (case first_column h lines of
             Inl e \<Rightarrow> Inl (ReadError e)
           | Inr already_labeled_subjs \<Rightarrow> Inr (remove_labeled already_labeled_subjs diff_areas)))"

section \<open>\<open>run_freeview\<close> and the session loop\<close>

text \<open>
  \<open>run_freeview\<close> as the loop sees it: the viewer is started, one second passes, and the
  window is hidden when \<open>xdotool\<close> is installed. The mask volume it saves is \<open>mask\<close> above.
\<close>

definition run_freeview :: "host \<Rightarrow> nat \<Rightarrow> string \<Rightarrow> string \<Rightarrow> string \<Rightarrow> event list" where
  "run_freeview h uid subj seg1 seg2 =
     Launch uid subj seg1 seg2 # Sleep 10 # (if xdotool_installed h then [Hide uid] else [])"

text \<open>\<open>random.shuffle\<close> of a list of two: it exchanges them or leaves them.\<close>

definition shuffle :: "bool \<Rightarrow> nat list \<Rightarrow> nat list" where
  "shuffle swap idx = (if swap then [idx ! 1, idx ! 0] else idx)"

definition lookup_segmentations :: "args \<Rightarrow> row \<Rightarrow> error + string list" where
  "lookup_segmentations a r =
     (case segmentation r (met1 a) of
        None \<Rightarrow> Inl (KeyError (met1 a))
      | Some s1 \<Rightarrow>
          (case segmentation r (met2 a) of
             None \<Rightarrow> Inl (KeyError (met2 a))
           | Some s2 \<Rightarrow> Inr [s1, s2]))"

text \<open>
  The block "set first window" / "set next window" (lines 369-375, 378-384, 395-401):
  shuffle \<open>method_idx\<close>, name the methods in slot order, look the two segmentations up,
  and call \<open>run_freeview\<close>, whose argument \<open>freesurfer_path\<close> must be bound. \<open>n\<close> is the
  number of launches so far: it names the new session and selects the shuffle.
\<close>

definition set_window :: "args \<Rightarrow> host \<Rightarrow> string option \<Rightarrow> nat list \<Rightarrow> nat \<Rightarrow> row
    \<Rightarrow> event list \<times> (error + nat list \<times> string list)" where
  "set_window a h freesurfer_path idx0 n r =
     (let idx = shuffle (swaps h n) idx0;
          methods = map (\<lambda>i. [met1 a, met2 a] ! i) idx
      in case lookup_segmentations a r of
           Inl e \<Rightarrow> ([], Inl e)
         | Inr segs \<Rightarrow>
             (case freesurfer_path of
                None \<Rightarrow> ([], Inl (NameError ''freesurfer_path''))
              | Some root \<Rightarrow>
                  (run_freeview h n (subject_id r) (segs ! (idx ! 0)) (segs ! (idx ! 1)),
                   Inr (idx, methods))))"

record loop_state =
  p_next :: "nat option"
  method_idx :: "nat list"
  methods_next :: "string list"
  launched :: nat
  already_labeled :: nat
  results :: "string list option"
  inputs :: "console list"

text \<open>
  The first part of the loop body (lines 363-401): on the first pass both windows are
  set and the program waits twelve seconds; afterwards the prefetched session becomes
  the current one and the next one is set. The result is the current session, the
  prefetched one, the current slot order and the new state.
\<close>

definition windows :: "args \<Rightarrow> host \<Rightarrow> string option \<Rightarrow> loop_state \<Rightarrow> row \<Rightarrow> row
    \<Rightarrow> event list \<times> (error + nat \<times> nat \<times> string list \<times> loop_state)" where
  "windows a h freesurfer_path s r r_next =
     (case p_next s of
        None \<Rightarrow>
          (case set_window a h freesurfer_path [0, 1] (launched s) r of
             (ev1, Inl e) \<Rightarrow> (ev1, Inl e)
           | (ev1, Inr (idx1, methods)) \<Rightarrow>
               (case set_window a h freesurfer_path idx1 (launched s + 1) r_next of
                  (ev2, Inl e) \<Rightarrow> (ev1 @ ev2, Inl e)
                | (ev2, Inr (idx2, methods_nxt)) \<Rightarrow>
                    (ev1 @ ev2 @ replicate 10 (Sleep 12),
                     Inr (launched s, launched s + 1, methods,
                          s\<lparr>p_next := Some (launched s + 1), method_idx := idx2,
                            methods_next := methods_nxt, launched := launched s + 2\<rparr>))))
      | Some p \<Rightarrow>
          (case set_window a h freesurfer_path (method_idx s) (launched s) r_next of
             (ev, Inl e) \<Rightarrow> (ev, Inl e)
           | (ev, Inr (idx, methods_nxt)) \<Rightarrow>
               (ev, Inr (p, launched s, methods_next s,
                         s\<lparr>p_next := Some (launched s), method_idx := idx,
                           methods_next := methods_nxt, launched := launched s + 1\<rparr>))))"

definition reveal :: "host \<Rightarrow> nat \<Rightarrow> event list" where
  "reveal h uid = (if xdotool_installed h then [Sleep 5, Reveal uid] else [])"

text \<open>Lines 422-431: terminate the current viewer.\<close>

definition teardown :: "host \<Rightarrow> nat \<Rightarrow> event list" where
  "teardown h p =
     (if darwin h then [Killpg p]
      else Sigterm p # (if xdotool_installed h then [CloseWin p] else []))"

text \<open>
  One pass of the loop body. The result is the events, the state, and the status with
  which the program ended in this pass, if it did.
\<close>

definition iteration :: "args \<Rightarrow> host \<Rightarrow> string option \<Rightarrow> string \<Rightarrow> loop_state \<Rightarrow> row \<times> row
    \<Rightarrow> event list \<times> loop_state \<times> status option" where
  "iteration a h freesurfer_path usr s pair =
     (case pair of (r, r_next) \<Rightarrow>
      (case windows a h freesurfer_path s r r_next of
         (ev1, Inl e) \<Rightarrow> (ev1, s, Some (Crash e))
       | (ev1, Inr (p, p_nxt, methods, s1)) \<Rightarrow>
           (case question_loop (darwin h) [p, p_nxt] methods (inputs s1) of
              (ev2, Failed e) \<Rightarrow> (ev1 @ reveal h p @ ev2, s1, Some (Crash e))
            | (ev2, Stopped) \<Rightarrow> (ev1 @ reveal h p @ ev2, s1, Some (Exit 0))
            | (ev2, Answered ans rest) \<Rightarrow>
                (let line = written_line r methods ans usr (label_time h (already_labeled s1))
                 in (ev1 @ reveal h p @ ev2 @ teardown h p @ [Append p line],
                     s1\<lparr>already_labeled := already_labeled s1 + 1,
                        results := append_line (results s1) line,
                        inputs := rest\<rparr>,
                     None)))))"

text \<open>
  \<open>for (subject_id, row), (subject_id_next, row_next) in
  zip(diff_areas[:-1].iterrows(), diff_areas[1:].iterrows())\<close>
\<close>

fun session_loop :: "args \<Rightarrow> host \<Rightarrow> string option \<Rightarrow> string \<Rightarrow> loop_state \<Rightarrow> (row \<times> row) list
    \<Rightarrow> event list \<times> loop_state \<times> status" where
  "session_loop a h freesurfer_path usr s [] = ([], s, Completed)"
| "session_loop a h freesurfer_path usr s (pair # pairs) =
     (case iteration a h freesurfer_path usr s pair of
        (ev, s', Some st) \<Rightarrow> (ev, s', st)
      | (ev, s', None) \<Rightarrow>
          (case session_loop a h freesurfer_path usr s' pairs of
             (ev', s'', st) \<Rightarrow> (ev @ ev', s'', st)))"

definition adjacent :: "row list \<Rightarrow> (row \<times> row) list" where
  "adjacent diff_areas = zip (butlast diff_areas) (tl diff_areas)"

definition initial :: "string list option \<Rightarrow> console list \<Rightarrow> loop_state" where
  "initial file ins =
     \<lparr>p_next = None, method_idx = [0, 1], methods_next = [], launched = 0,
      already_labeled = 0, results = file, inputs = ins\<rparr>"

text \<open>
  The program: arguments, host, results file, input table and console input to the
  events, the results file at the end and the way the program ended.
\<close>

definition main :: "args \<Rightarrow> host \<Rightarrow> string list option \<Rightarrow> row list \<Rightarrow> console list
    \<Rightarrow> event list \<times> string list option \<times> status" where
  "main a h file diff_areas ins =
     (case resolve_freesurfer_path a h of
        Inl e \<Rightarrow> ([], file, Crash e)
      | Inr freesurfer_path \<Rightarrow>
          (case user a of
             None \<Rightarrow> ([UserUnknown], file, Exit 1)
           | Some usr \<Rightarrow>
               (case worklist h file diff_areas of
                  Inl e \<Rightarrow> ([], file, Crash e)
                | Inr todo \<Rightarrow>
                    (case session_loop a h freesurfer_path usr (initial file ins) (adjacent todo) of
                       (ev, s, st) \<Rightarrow> (ev, results s, st)))))"

section \<open>Reading a trace\<close>

text \<open>
  The events a question leaves when the answers in \<open>rejected\<close> are refused one after
  the other and the next answer is taken: the question is put once per refused answer,
  each time followed by the error message, and once more.
\<close>

definition reasked :: "nat list \<Rightarrow> nat \<Rightarrow> string list \<Rightarrow> event list" where
  "reasked p k rejected = concat (map (\<lambda>a. [Ask (hd p) k, Invalid a]) rejected) @ [Ask (hd p) k]"

text \<open>
  The sessions alive after a sequence of events: a launch adds its session, a
  termination signal removes it.
\<close>

fun track :: "nat set \<Rightarrow> event \<Rightarrow> nat set" where
  "track A (Launch n subj seg1 seg2) = insert n A"
| "track A (Sigterm n) = A - {n}"
| "track A (Killpg n) = A - {n}"
| "track A e = A"

definition live :: "event list \<Rightarrow> nat set" where
  "live tr = foldl track {} tr"

text \<open>The subjects shown in a viewer, in the order of their launches.\<close>

fun launched_subjects :: "event list \<Rightarrow> string list" where
  "launched_subjects [] = []"
| "launched_subjects (Launch n subj seg1 seg2 # es) = subj # launched_subjects es"
| "launched_subjects (e # es) = launched_subjects es"

text \<open>
  What single events say: the session launched, the session signalled to terminate, the
  question asked, the record written. Over a trace these give the lists of launches,
  terminations, questions and records, each in order.
\<close>

fun launch_of :: "event \<Rightarrow> nat list" where
  "launch_of (Launch n subj seg1 seg2) = [n]"
| "launch_of e = []"

fun term_of :: "event \<Rightarrow> nat list" where
  "term_of (Sigterm n) = [n]"
| "term_of (Killpg n) = [n]"
| "term_of e = []"

fun ask_of :: "event \<Rightarrow> (nat \<times> nat) list" where
  "ask_of (Ask n k) = [(n, k)]"
| "ask_of e = []"

fun append_of :: "event \<Rightarrow> (nat \<times> string) list" where
  "append_of (Append n line) = [(n, line)]"
| "append_of e = []"

definition launches :: "event list \<Rightarrow> nat list" where
  "launches tr = concat (map launch_of tr)"

definition terminations :: "event list \<Rightarrow> nat list" where
  "terminations tr = concat (map term_of tr)"

definition asks :: "event list \<Rightarrow> (nat \<times> nat) list" where
  "asks tr = concat (map ask_of tr)"

definition appends :: "event list \<Rightarrow> (nat \<times> string) list" where
  "appends tr = concat (map append_of tr)"

text \<open>The results file after the records of a trace have been appended to it.\<close>

definition extended :: "string list option \<Rightarrow> event list \<Rightarrow> string list option" where
  "extended file tr = foldl append_line file (map snd (appends tr))"

text \<open>The sessions launched, each with the subject it shows.\<close>

fun shown_of :: "event \<Rightarrow> (nat \<times> string) list" where
  "shown_of (Launch n subj seg1 seg2) = [(n, subj)]"
| "shown_of e = []"

definition shown :: "event list \<Rightarrow> (nat \<times> string) list" where
  "shown tr = concat (map shown_of tr)"

section \<open>A sample session\<close>

text \<open>
  The sample host reads a table as pandas does when no field is quoted and every field
  of the column is either a string of decimal digits or holds a letter: a column whose
  fields are all integers is a column of integers (\<open>int64\<close>), any other column is a column
  of texts (\<open>object\<close>). A file without lines raises \<open>EmptyDataError\<close>.
\<close>

definition is_integer :: "string \<Rightarrow> bool" where
  "is_integer s \<longleftrightarrow> s \<noteq> [] \<and> list_all (\<lambda>c. c \<in> set ''0123456789'') s"

definition infer_column :: "string list \<Rightarrow> cell list" where
  "infer_column cols =
     (if list_all is_integer cols then map (\<lambda>f. Number (int (py_int f))) cols
      else map Text cols)"

definition read_first_column :: "string list \<Rightarrow> read_error + cell list" where
  "read_first_column lines =
     (if lines = [] then Inl EmptyDataError
      else Inr (infer_column (map (\<lambda>line. hd (parse_line line)) lines)))"

text \<open>The identifiers of the three-subject sample table are texts.\<close>

definition sample_row :: "string \<Rightarrow> row" where
  "sample_row name =
     \<lparr>subject_id = ''sub-'' @ name, ID = Text name, image = ''/data/'' @ name @ ''/orig.mgz'',
      segmentation = [''A'' \<mapsto> ''/data/'' @ name @ ''/A.mgz'', ''B'' \<mapsto> ''/data/'' @ name @ ''/B.mgz''],
      num_differences = ''12''\<rparr>"

definition sample_args :: args where
  "sample_args = \<lparr>met1 = ''A'', met2 = ''B'', user = Some ''ann'', fs = None\<rparr>"

definition sample_host :: host where
  "sample_host =
     \<lparr>darwin = False, xdotool_installed = True,
      environ = [''FREESURFER_HOME'' \<mapsto> ''/opt/freesurfer''],
      swaps = (\<lambda>n. n = 1), label_time = (\<lambda>n. ''7.25''),
      first_column = read_first_column\<rparr>"

definition sample_answers :: "console list" where
  "sample_answers = [Line ''1'', Line ''3'', Line ''2'', Line ''0'', Line ''a,b'']"

definition sample_host_without_home :: host where
  "sample_host_without_home = sample_host\<lparr>environ := Map.empty\<rparr>"

definition sample_args_with_fs :: args where
  "sample_args_with_fs = sample_args\<lparr>fs := Some ''/opt/freesurfer''\<rparr>"

definition sample_args_comma_user :: args where
  "sample_args_comma_user = sample_args\<lparr>user := Some ''Doe, J''\<rparr>"

definition three_subjects :: "row list" where
  "three_subjects = [sample_row ''S1'', sample_row ''S2'', sample_row ''S3'']"

section \<open>Notions used in the proofs\<close>

text \<open>
  The session the next pass of the loop asks about, and the relation the loop keeps
  between \<open>p_next\<close> and the number of launches.
\<close>

definition cur :: "loop_state \<Rightarrow> nat" where
  "cur s = (case p_next s of None \<Rightarrow> launched s | Some p \<Rightarrow> p)"

definition consistent :: "loop_state \<Rightarrow> bool" where
  "consistent s \<longleftrightarrow> (case p_next s of None \<Rightarrow> True | Some p \<Rightarrow> launched s = Suc p)"

definition alive_of :: "loop_state \<Rightarrow> nat set" where
  "alive_of s = (case p_next s of None \<Rightarrow> {} | Some p \<Rightarrow> {p})"

text \<open>All sets of live sessions met along a trace, from \<open>A\<close>, stay within \<open>B\<close>.\<close>

fun within :: "nat set \<Rightarrow> nat set \<Rightarrow> event list \<Rightarrow> bool" where
  "within B A [] \<longleftrightarrow> A \<subseteq> B"
| "within B A (e # es) \<longleftrightarrow> A \<subseteq> B \<and> within B (track A e) es"

text \<open>All of them are within two consecutive sessions.\<close>

fun paired :: "nat set \<Rightarrow> event list \<Rightarrow> bool" where
  "paired A [] \<longleftrightarrow> (\<exists>n. A \<subseteq> {n, Suc n})"
| "paired A (e # es) \<longleftrightarrow> (\<exists>n. A \<subseteq> {n, Suc n}) \<and> paired (track A e) es"

text \<open>Every event satisfying \<open>Q\<close> comes after one satisfying \<open>P\<close>.\<close>

definition precedes :: "(event \<Rightarrow> bool) \<Rightarrow> (event \<Rightarrow> bool) \<Rightarrow> event list \<Rightarrow> bool" where
  "precedes P Q tr \<longleftrightarrow> (\<forall>i<length tr. Q (tr ! i) \<longrightarrow> (\<exists>j<i. P (tr ! j)))"

definition is_stop :: "console \<Rightarrow> bool" where
  "is_stop tok \<longleftrightarrow> tok = Line ''stop'' \<or> tok = Interrupt"

text \<open>
  What holds of each of the five questions and of their sequence, as functions of the
  console input: the events launch nothing and write nothing, the questions are about
  the current session, and signals are sent exactly when the outcome is a stop.
\<close>

definition tidy :: "nat list \<Rightarrow> (console list \<Rightarrow> event list \<times> 'a outcome) \<Rightarrow> bool" where
  "tidy p f \<longleftrightarrow>
     (\<forall>ins ev out. f ins = (ev, out) \<longrightarrow>
        launches ev = [] \<and> appends ev = [] \<and>
        (\<forall>x\<in>set (asks ev). fst x = hd p \<and> 1 \<le> snd x \<and> snd x \<le> 5) \<and>
        terminations ev = (if out = Stopped then p else []))"

text \<open>
  More input after an answered sequence is left over; a stop command after an
  exhausted input stops.
\<close>

definition extends :: "bool \<Rightarrow> nat list \<Rightarrow> (console list \<Rightarrow> event list \<times> 'a outcome) \<Rightarrow> bool" where
  "extends dw p f \<longleftrightarrow>
     (\<forall>ins ev v rest xs. f ins = (ev, Answered v rest) \<longrightarrow>
        f (ins @ xs) = (ev, Answered v (rest @ xs))) \<and>
     (\<forall>ins ev tok post. f ins = (ev, Failed EOFError) \<and> is_stop tok \<longrightarrow>
        f (ins @ tok # post) = (ev @ stop_labeling dw p, Stopped) \<and>
        ev \<noteq> [] \<and> (\<exists>k. last ev = Ask (hd p) k \<and> 1 \<le> k \<and> k \<le> 5))"

definition sample_run :: "event list \<times> string list option \<times> status" where
  "sample_run = main sample_args sample_host None three_subjects
     (sample_answers @ sample_answers @ sample_answers)"

text \<open>
  A table whose identifiers are 1, 2 and S3: the column is not all integers, so the
  three are read as texts. The first session labels subject 1 and is stopped; the second
  session starts from the results file the first one left. \<open>resumed_subjects\<close> is the
  table the loop runs over when the results file holds the record of \<open>S1\<close>.
\<close>

definition numbered_subjects :: "row list" where
  "numbered_subjects = [sample_row ''1'', sample_row ''2'', sample_row ''S3'']"

definition resumed_subjects :: "error + row list" where
  "resumed_subjects =
     worklist sample_host (Some [''S1,A,B,A,certain,2,None,a;b,ann,7.25,12'' @ [CHR 0x0A]])
       three_subjects"

definition first_session :: "event list \<times> string list option \<times> status" where
  "first_session = main sample_args sample_host None numbered_subjects
     (sample_answers @ [Line ''stop''])"

definition second_session :: "event list \<times> string list option \<times> status" where
  "second_session = main sample_args sample_host (fst (snd first_session)) numbered_subjects
     (sample_answers @ [Line ''stop''])"

text \<open>
  The first subject is answered, then \<open>k\<close> answers are given for the second: the program
  waits at its question \<open>k + 1\<close>. In \<open>stopped_at\<close> the next input is \<open>tok\<close>.
\<close>

definition waiting_at :: "nat \<Rightarrow> event list \<times> string list option \<times> status" where
  "waiting_at k = main sample_args sample_host None three_subjects
     (sample_answers @ take k [Line ''2'', Line ''3'', Line ''1'', Line ''0''])"

definition stopped_at :: "nat \<Rightarrow> console \<Rightarrow> event list \<times> string list option \<times> status" where
  "stopped_at k tok = main sample_args sample_host None three_subjects
     ((sample_answers @ take k [Line ''2'', Line ''3'', Line ''1'', Line ''0'']) @ tok # [Line ''1''])"

section \<open>Properties of the mask\<close>

lemma mask_interior:
  assumes "20 \<le> c0" "20 \<le> c1" "20 \<le> c2" "in_shape (n0, n1, n2) (i, j, k)"
  shows "mask (n0, n1, n2) (c0, c1, c2) (i, j, k) =
         Some (if in_cube (c0, c1, c2) (i, j, k) then 0 else 1)"
  using assms by (auto simp: zeroed_axis_def slice_index_def)

text \<open>
  C8. The claim: for every image volume and coordinate, the mask is zero at exactly the
  voxels inside the cube of 40 voxels per side centred on the coordinate, and one
  elsewhere. That holds when every component of the centre is at least 20
  (\<open>mask_interior\<close>). For a centre nearer to the origin of an axis the code does
  something else: in a volume of 256 voxels per side with the centre at (10, 128, 128)
  the lower bound \<open>10 - 20\<close> is negative, the slice \<open>-10:30\<close> is empty, and the centre
  voxel, which lies in the cube, keeps the value one.
\<close>

theorem mask_near_origin_keeps_center:
  "in_shape (256, 256, 256) (10, 128, 128) \<and> in_cube (10, 128, 128) (10, 128, 128) \<and>
   mask (256, 256, 256) (10, 128, 128) (10, 128, 128) = Some 1"
  by (simp add: zeroed_axis_def slice_index_def)

lemma mask_total: "in_shape sh v \<Longrightarrow> mask sh c v \<noteq> None"
  by (cases sh; cases c; cases v) simp

lemma axis_low:
  assumes "0 \<le> c" "c < 20"
  shows "slice_index n (c - 20) = max 0 (int n + c - 20)"
  using assms by (simp add: slice_index_def algebra_simps)

lemma axis_miss:
  assumes "0 \<le> c" "c < 20" "20 < int n + c"
  shows "\<not> zeroed_axis n c 0"
  using assms by (simp add: zeroed_axis_def slice_index_def)

lemma axis_empty:
  assumes "0 \<le> c" "c < 20" "40 \<le> n"
  shows "\<not> zeroed_axis n c i"
  using assms by (auto simp add: zeroed_axis_def slice_index_def)

lemma mask_one_if_axis0: "in_shape (n0, n1, n2) (i, j, k) \<Longrightarrow> \<not> zeroed_axis n0 c0 i
    \<Longrightarrow> mask (n0, n1, n2) (c0, c1, c2) (i, j, k) = Some 1"
  by simp

lemma mask_one_if_axis1: "in_shape (n0, n1, n2) (i, j, k) \<Longrightarrow> \<not> zeroed_axis n1 c1 j
    \<Longrightarrow> mask (n0, n1, n2) (c0, c1, c2) (i, j, k) = Some 1"
  by simp

lemma mask_one_if_axis2: "in_shape (n0, n1, n2) (i, j, k) \<Longrightarrow> \<not> zeroed_axis n2 c2 k
    \<Longrightarrow> mask (n0, n1, n2) (c0, c1, c2) (i, j, k) = Some 1"
  by simp

text \<open>
  C10, as stated, at a small volume: with 4 voxels per side and the centre at (2, 2, 2)
  every lower bound \<open>2 - 20\<close> is negative, and the zeroed voxels are exactly the voxels
  of the volume inside the cube (all of them): the region is the intended one.
\<close>

theorem small_volume_region_is_cube:
  "(2::int) - 20 < 0 \<and> in_shape (4, 4, 4) (2, 2, 2) \<and>
   filter (is_zero (4, 4, 4) (2, 2, 2)) (voxels (4, 4, 4)) =
   filter (in_cube (2, 2, 2)) (voxels (4, 4, 4))"
  by code_simp

lemma mask_near_origin_axes:
  assumes "0 \<le> c0" "0 \<le> c1" "0 \<le> c2"
    and "in_shape (n0, n1, n2) (nat c0, nat c1, nat c2)"
  shows "(c0 < 20 \<longrightarrow>
            c0 - 20 < 0 \<and> slice_index n0 (c0 - 20) = max 0 (int n0 + c0 - 20) \<and>
            (20 < int n0 + c0 \<longrightarrow>
               in_cube (c0, c1, c2) (0, nat c1, nat c2) \<and>
               mask (n0, n1, n2) (c0, c1, c2) (0, nat c1, nat c2) = Some 1) \<and>
            (40 \<le> n0 \<longrightarrow> (\<forall>v. in_shape (n0, n1, n2) v \<longrightarrow> mask (n0, n1, n2) (c0, c1, c2) v = Some 1)))"
    and "(c1 < 20 \<longrightarrow>
            c1 - 20 < 0 \<and> slice_index n1 (c1 - 20) = max 0 (int n1 + c1 - 20) \<and>
            (20 < int n1 + c1 \<longrightarrow>
               in_cube (c0, c1, c2) (nat c0, 0, nat c2) \<and>
               mask (n0, n1, n2) (c0, c1, c2) (nat c0, 0, nat c2) = Some 1) \<and>
            (40 \<le> n1 \<longrightarrow> (\<forall>v. in_shape (n0, n1, n2) v \<longrightarrow> mask (n0, n1, n2) (c0, c1, c2) v = Some 1)))"
    and "(c2 < 20 \<longrightarrow>
            c2 - 20 < 0 \<and> slice_index n2 (c2 - 20) = max 0 (int n2 + c2 - 20) \<and>
            (20 < int n2 + c2 \<longrightarrow>
               in_cube (c0, c1, c2) (nat c0, nat c1, 0) \<and>
               mask (n0, n1, n2) (c0, c1, c2) (nat c0, nat c1, 0) = Some 1) \<and>
            (40 \<le> n2 \<longrightarrow> (\<forall>v. in_shape (n0, n1, n2) v \<longrightarrow> mask (n0, n1, n2) (c0, c1, c2) v = Some 1)))"
    and "\<forall>v. in_shape (n0, n1, n2) v \<longrightarrow> mask (n0, n1, n2) (c0, c1, c2) v \<noteq> None"
proof -
  from assms(4) have pos: "0 < n0" "0 < n1" "0 < n2" by auto
  show "c0 < 20 \<longrightarrow>
            c0 - 20 < 0 \<and> slice_index n0 (c0 - 20) = max 0 (int n0 + c0 - 20) \<and>
            (20 < int n0 + c0 \<longrightarrow>
               in_cube (c0, c1, c2) (0, nat c1, nat c2) \<and>
               mask (n0, n1, n2) (c0, c1, c2) (0, nat c1, nat c2) = Some 1) \<and>
            (40 \<le> n0 \<longrightarrow> (\<forall>v. in_shape (n0, n1, n2) v \<longrightarrow> mask (n0, n1, n2) (c0, c1, c2) v = Some 1))"
  proof (intro impI conjI allI)
    assume c: "c0 < 20"
    show "c0 - 20 < 0" using c by simp
    show "slice_index n0 (c0 - 20) = max 0 (int n0 + c0 - 20)" using assms(1) c by (rule axis_low)
    { assume "20 < int n0 + c0"
      then have miss: "\<not> zeroed_axis n0 c0 0" using assms(1) c by (intro axis_miss)
      show "in_cube (c0, c1, c2) (0, nat c1, nat c2)" using assms(1-3) c by simp
      have "in_shape (n0, n1, n2) (0, nat c1, nat c2)" using assms(4) pos by simp
      then show "mask (n0, n1, n2) (c0, c1, c2) (0, nat c1, nat c2) = Some 1"
        using miss by (rule mask_one_if_axis0) }
    { fix v assume big: "40 \<le> n0" and v: "in_shape (n0, n1, n2) v"
      obtain i j k where vv: "v = (i, j, k)" by (cases v)
      have "\<not> zeroed_axis n0 c0 i" using assms(1) c big by (rule axis_empty)
      with v show "mask (n0, n1, n2) (c0, c1, c2) v = Some 1"
        unfolding vv by (intro mask_one_if_axis0) }
  qed
  show "c1 < 20 \<longrightarrow>
            c1 - 20 < 0 \<and> slice_index n1 (c1 - 20) = max 0 (int n1 + c1 - 20) \<and>
            (20 < int n1 + c1 \<longrightarrow>
               in_cube (c0, c1, c2) (nat c0, 0, nat c2) \<and>
               mask (n0, n1, n2) (c0, c1, c2) (nat c0, 0, nat c2) = Some 1) \<and>
            (40 \<le> n1 \<longrightarrow> (\<forall>v. in_shape (n0, n1, n2) v \<longrightarrow> mask (n0, n1, n2) (c0, c1, c2) v = Some 1))"
  proof (intro impI conjI allI)
    assume c: "c1 < 20"
    show "c1 - 20 < 0" using c by simp
    show "slice_index n1 (c1 - 20) = max 0 (int n1 + c1 - 20)" using assms(2) c by (rule axis_low)
    { assume "20 < int n1 + c1"
      then have miss: "\<not> zeroed_axis n1 c1 0" using assms(2) c by (intro axis_miss)
      show "in_cube (c0, c1, c2) (nat c0, 0, nat c2)" using assms(1-3) c by simp
      have "in_shape (n0, n1, n2) (nat c0, 0, nat c2)" using assms(4) pos by simp
      then show "mask (n0, n1, n2) (c0, c1, c2) (nat c0, 0, nat c2) = Some 1"
        using miss by (rule mask_one_if_axis1) }
    { fix v assume big: "40 \<le> n1" and v: "in_shape (n0, n1, n2) v"
      obtain i j k where vv: "v = (i, j, k)" by (cases v)
      have "\<not> zeroed_axis n1 c1 j" using assms(2) c big by (rule axis_empty)
      with v show "mask (n0, n1, n2) (c0, c1, c2) v = Some 1"
        unfolding vv by (intro mask_one_if_axis1) }
  qed
  show "c2 < 20 \<longrightarrow>
            c2 - 20 < 0 \<and> slice_index n2 (c2 - 20) = max 0 (int n2 + c2 - 20) \<and>
            (20 < int n2 + c2 \<longrightarrow>
               in_cube (c0, c1, c2) (nat c0, nat c1, 0) \<and>
               mask (n0, n1, n2) (c0, c1, c2) (nat c0, nat c1, 0) = Some 1) \<and>
            (40 \<le> n2 \<longrightarrow> (\<forall>v. in_shape (n0, n1, n2) v \<longrightarrow> mask (n0, n1, n2) (c0, c1, c2) v = Some 1))"
  proof (intro impI conjI allI)
    assume c: "c2 < 20"
    show "c2 - 20 < 0" using c by simp
    show "slice_index n2 (c2 - 20) = max 0 (int n2 + c2 - 20)" using assms(3) c by (rule axis_low)
    { assume "20 < int n2 + c2"
      then have miss: "\<not> zeroed_axis n2 c2 0" using assms(3) c by (intro axis_miss)
      show "in_cube (c0, c1, c2) (nat c0, nat c1, 0)" using assms(1-3) c by simp
      have "in_shape (n0, n1, n2) (nat c0, nat c1, 0)" using assms(4) pos by simp
      then show "mask (n0, n1, n2) (c0, c1, c2) (nat c0, nat c1, 0) = Some 1"
        using miss by (rule mask_one_if_axis2) }
    { fix v assume big: "40 \<le> n2" and v: "in_shape (n0, n1, n2) v"
      obtain i j k where vv: "v = (i, j, k)" by (cases v)
      have "\<not> zeroed_axis n2 c2 k" using assms(3) c big by (rule axis_empty)
      with v show "mask (n0, n1, n2) (c0, c1, c2) v = Some 1"
        unfolding vv by (intro mask_one_if_axis2) }
  qed
  show "\<forall>v. in_shape (n0, n1, n2) v \<longrightarrow> mask (n0, n1, n2) (c0, c1, c2) v \<noteq> None"
    by (simp add: mask_total)
qed

lemma axis_short:
  assumes "0 \<le> c" "c < 20" "int n + c \<le> 20"
  shows "slice_index n (c - 20) = 0 \<and> slice_index n (c + 20) = int n \<and>
         (\<forall>i<n. zeroed_axis n c i)"
  using assms by (auto simp: zeroed_axis_def slice_index_def)

lemma axis_exact:
  assumes "0 \<le> c" "c < int n" "i < n"
  shows "zeroed_axis n c i \<longleftrightarrow>
         (if c < 20 then int n + c - 20 else c - 20) \<le> int i \<and> int i < c + 20"
  using assms by (auto simp: zeroed_axis_def slice_index_def)

lemma mask_defined: "mask sh c v \<noteq> None \<longleftrightarrow> in_shape sh v"
  by (cases sh; cases c; cases v) simp

lemma mask_exact:
  assumes "0 \<le> c0" "0 \<le> c1" "0 \<le> c2"
    and "in_shape (n0, n1, n2) (nat c0, nat c1, nat c2)"
    and "in_shape (n0, n1, n2) (i, j, k)"
  shows "mask (n0, n1, n2) (c0, c1, c2) (i, j, k) =
         Some (if ((if c0 < 20 then int n0 + c0 - 20 else c0 - 20) \<le> int i \<and> int i < c0 + 20) \<and>
                  ((if c1 < 20 then int n1 + c1 - 20 else c1 - 20) \<le> int j \<and> int j < c1 + 20) \<and>
                  ((if c2 < 20 then int n2 + c2 - 20 else c2 - 20) \<le> int k \<and> int k < c2 + 20)
               then 0 else 1)"
proof -
  from assms(1-4) have c: "c0 < int n0" "c1 < int n1" "c2 < int n2" by auto
  from assms(5) have v: "i < n0" "j < n1" "k < n2" by auto
  show ?thesis
    using v
    by (simp only: mask.simps axis_exact [OF assms(1) c(1) v(1)]
        axis_exact [OF assms(2) c(2) v(2)] axis_exact [OF assms(3) c(3) v(3)]) simp
qed

text \<open>
  C10, amended. Let the centre be a voxel of the volume. If one of its components is
  below 20, the lower slice bound on that axis is negative and is taken from the end of
  the axis (clamped at 0). If that axis is longer than 20 minus the component, the
  zeroed region is not the intended cube: the voxel with index 0 on that axis and the
  centre's indices on the others lies in the cube and keeps the value one. If the axis
  has 40 voxels or more, nothing is zeroed and the mask is all ones. If the axis has at
  most 20 minus the component voxels, the zeroed range on it is the whole axis. In every
  case the mask is zero at exactly the voxels whose index on each axis is below the
  component plus 20 and at least the component minus 20, to which the length of the axis
  is added when the component is below 20; it is one at the other voxels of the volume,
  and it has a value at the voxels of the volume and at no others: the construction
  raises nothing.
\<close>

theorem mask_near_origin:
  assumes "0 \<le> c0" "0 \<le> c1" "0 \<le> c2"
    and "in_shape (n0, n1, n2) (nat c0, nat c1, nat c2)"
  shows "(c0 < 20 \<longrightarrow>
            c0 - 20 < 0 \<and> slice_index n0 (c0 - 20) = max 0 (int n0 + c0 - 20) \<and>
            (20 < int n0 + c0 \<longrightarrow>
               in_cube (c0, c1, c2) (0, nat c1, nat c2) \<and>
               mask (n0, n1, n2) (c0, c1, c2) (0, nat c1, nat c2) = Some 1) \<and>
            (40 \<le> n0 \<longrightarrow> (\<forall>v. in_shape (n0, n1, n2) v \<longrightarrow> mask (n0, n1, n2) (c0, c1, c2) v = Some 1))) \<and>
         (c1 < 20 \<longrightarrow>
            c1 - 20 < 0 \<and> slice_index n1 (c1 - 20) = max 0 (int n1 + c1 - 20) \<and>
            (20 < int n1 + c1 \<longrightarrow>
               in_cube (c0, c1, c2) (nat c0, 0, nat c2) \<and>
               mask (n0, n1, n2) (c0, c1, c2) (nat c0, 0, nat c2) = Some 1) \<and>
            (40 \<le> n1 \<longrightarrow> (\<forall>v. in_shape (n0, n1, n2) v \<longrightarrow> mask (n0, n1, n2) (c0, c1, c2) v = Some 1))) \<and>
         (c2 < 20 \<longrightarrow>
            c2 - 20 < 0 \<and> slice_index n2 (c2 - 20) = max 0 (int n2 + c2 - 20) \<and>
            (20 < int n2 + c2 \<longrightarrow>
               in_cube (c0, c1, c2) (nat c0, nat c1, 0) \<and>
               mask (n0, n1, n2) (c0, c1, c2) (nat c0, nat c1, 0) = Some 1) \<and>
            (40 \<le> n2 \<longrightarrow> (\<forall>v. in_shape (n0, n1, n2) v \<longrightarrow> mask (n0, n1, n2) (c0, c1, c2) v = Some 1))) \<and>
         (\<forall>v. in_shape (n0, n1, n2) v \<longrightarrow> mask (n0, n1, n2) (c0, c1, c2) v \<noteq> None) \<and>
         (c0 < 20 \<and> int n0 + c0 \<le> 20 \<longrightarrow>
            slice_index n0 (c0 - 20) = 0 \<and> slice_index n0 (c0 + 20) = int n0 \<and>
            (\<forall>i<n0. zeroed_axis n0 c0 i)) \<and>
         (c1 < 20 \<and> int n1 + c1 \<le> 20 \<longrightarrow>
            slice_index n1 (c1 - 20) = 0 \<and> slice_index n1 (c1 + 20) = int n1 \<and>
            (\<forall>j<n1. zeroed_axis n1 c1 j)) \<and>
         (c2 < 20 \<and> int n2 + c2 \<le> 20 \<longrightarrow>
            slice_index n2 (c2 - 20) = 0 \<and> slice_index n2 (c2 + 20) = int n2 \<and>
            (\<forall>k<n2. zeroed_axis n2 c2 k)) \<and>
         (\<forall>v. mask (n0, n1, n2) (c0, c1, c2) v \<noteq> None \<longleftrightarrow> in_shape (n0, n1, n2) v) \<and>
         (\<forall>i j k. in_shape (n0, n1, n2) (i, j, k) \<longrightarrow>
            mask (n0, n1, n2) (c0, c1, c2) (i, j, k) =
              Some (if ((if c0 < 20 then int n0 + c0 - 20 else c0 - 20) \<le> int i \<and> int i < c0 + 20) \<and>
                       ((if c1 < 20 then int n1 + c1 - 20 else c1 - 20) \<le> int j \<and> int j < c1 + 20) \<and>
                       ((if c2 < 20 then int n2 + c2 - 20 else c2 - 20) \<le> int k \<and> int k < c2 + 20)
                    then 0 else 1))"
proof -
  have s0: "c0 < 20 \<and> int n0 + c0 \<le> 20 \<longrightarrow>
            slice_index n0 (c0 - 20) = 0 \<and> slice_index n0 (c0 + 20) = int n0 \<and>
            (\<forall>i<n0. zeroed_axis n0 c0 i)"
    using axis_short [OF assms(1)] by blast
  have s1: "c1 < 20 \<and> int n1 + c1 \<le> 20 \<longrightarrow>
            slice_index n1 (c1 - 20) = 0 \<and> slice_index n1 (c1 + 20) = int n1 \<and>
            (\<forall>j<n1. zeroed_axis n1 c1 j)"
    using axis_short [OF assms(2)] by blast
  have s2: "c2 < 20 \<and> int n2 + c2 \<le> 20 \<longrightarrow>
            slice_index n2 (c2 - 20) = 0 \<and> slice_index n2 (c2 + 20) = int n2 \<and>
            (\<forall>k<n2. zeroed_axis n2 c2 k)"
    using axis_short [OF assms(3)] by blast
  have d: "\<forall>v. mask (n0, n1, n2) (c0, c1, c2) v \<noteq> None \<longleftrightarrow> in_shape (n0, n1, n2) v"
    by (intro allI) (rule mask_defined)
  have f: "\<forall>i j k. in_shape (n0, n1, n2) (i, j, k) \<longrightarrow>
            mask (n0, n1, n2) (c0, c1, c2) (i, j, k) =
              Some (if ((if c0 < 20 then int n0 + c0 - 20 else c0 - 20) \<le> int i \<and> int i < c0 + 20) \<and>
                       ((if c1 < 20 then int n1 + c1 - 20 else c1 - 20) \<le> int j \<and> int j < c1 + 20) \<and>
                       ((if c2 < 20 then int n2 + c2 - 20 else c2 - 20) \<le> int k \<and> int k < c2 + 20)
                    then 0 else 1)"
    by (intro allI impI) (rule mask_exact [OF assms])
  from mask_near_origin_axes [OF assms] s0 s1 s2 d f show ?thesis by (intro conjI)
qed

theorem mask_near_origin_witness:
  "in_shape (256, 256, 256) (nat 10, nat 128, nat 128) \<and>
   (10::int) - 20 < 0 \<and> slice_index 256 (10 - 20) = 246 \<and>
   in_cube (10, 128, 128) (0, nat 128, nat 128) \<and>
   mask (256, 256, 256) (10, 128, 128) (0, nat 128, nat 128) = Some 1 \<and>
   mask (256, 256, 256) (10, 128, 128) (10, 128, 128) = Some 1 \<and>
   mask (256, 256, 256) (10, 128, 128) (255, 255, 255) \<noteq> None \<and>
   in_shape (4, 64, 64) (nat 2, nat 30, nat 30) \<and>
   slice_index 4 (2 - 20) = 0 \<and> slice_index 4 (2 + 20) = 4 \<and>
   mask (4, 64, 64) (2, 30, 30) (3, 10, 49) = Some 0 \<and>
   mask (4, 64, 64) (2, 30, 30) (3, 9, 49) = Some 1 \<and>
   mask (4, 64, 64) (2, 30, 30) (3, 10, 50) = Some 1 \<and>
   mask (4, 64, 64) (2, 30, 30) (4, 10, 49) = None"
proof -
  have sh: "in_shape (256, 256, 256) (nat 10, nat 128, nat 128)" by simp
  have nn: "(0::int) \<le> 10" "(0::int) \<le> 128" "(0::int) \<le> 2" "(0::int) \<le> 30" by simp_all
  note m0 = mask_near_origin [OF nn(1) nn(2) nn(2) sh]
  have a: "in_shape (256, 256, 256) (10, 128, 128)" "in_shape (256, 256, 256) (255, 255, 255)"
    by simp_all
  have c: "(10::int) < 20" "20 < int 256 + (10::int)" "(40::nat) \<le> 256" by simp_all
  from m0 c have neg: "(10::int) - 20 < 0"
    and low: "slice_index 256 (10 - 20) = max 0 (int 256 + 10 - 20)"
    and cube: "in_cube (10, 128, 128) (0, nat 128, nat 128)"
    and one: "mask (256, 256, 256) (10, 128, 128) (0, nat 128, nat 128) = Some 1"
    and ones: "\<forall>v. in_shape (256, 256, 256) v \<longrightarrow> mask (256, 256, 256) (10, 128, 128) v = Some 1"
    and def: "\<forall>v. in_shape (256, 256, 256) v \<longrightarrow> mask (256, 256, 256) (10, 128, 128) v \<noteq> None"
    by blast+
  from low have low': "slice_index 256 (10 - 20) = 246" by simp
  from ones a(1) have mid: "mask (256, 256, 256) (10, 128, 128) (10, 128, 128) = Some 1"
    by blast
  from def a(2) have far: "mask (256, 256, 256) (10, 128, 128) (255, 255, 255) \<noteq> None"
    by blast
  have sh2: "in_shape (4, 64, 64) (nat 2, nat 30, nat 30)" by simp
  note m2 = mask_near_origin [OF nn(3) nn(4) nn(4) sh2]
  have c2: "(2::int) < 20 \<and> int 4 + (2::int) \<le> 20" by simp
  from m2 c2 have whole: "slice_index 4 (2 - 20) = 0 \<and> slice_index 4 (2 + 20) = int 4"
    and dom: "\<forall>v. mask (4, 64, 64) (2, 30, 30) v \<noteq> None \<longleftrightarrow> in_shape (4, 64, 64) v"
    and exact: "\<forall>i j k. in_shape (4, 64, 64) (i, j, k) \<longrightarrow>
            mask (4, 64, 64) (2, 30, 30) (i, j, k) =
              Some (if ((if (2::int) < 20 then int 4 + 2 - 20 else 2 - 20) \<le> int i \<and> int i < 2 + 20) \<and>
                       ((if (30::int) < 20 then int 64 + 30 - 20 else 30 - 20) \<le> int j \<and> int j < 30 + 20) \<and>
                       ((if (30::int) < 20 then int 64 + 30 - 20 else 30 - 20) \<le> int k \<and> int k < 30 + 20)
                    then 0 else 1)"
    by blast+
  have v: "in_shape (4, 64, 64) (3, 10, 49)" "in_shape (4, 64, 64) (3, 9, 49)"
    "in_shape (4, 64, 64) (3, 10, 50)" "\<not> in_shape (4, 64, 64) (4, 10, 49)" by simp_all
  from whole have w: "slice_index 4 (2 - 20) = 0" "slice_index 4 (2 + 20) = 4" by simp_all
  from exact [rule_format, OF v(1)] have z: "mask (4, 64, 64) (2, 30, 30) (3, 10, 49) = Some 0"
    by simp
  from exact [rule_format, OF v(2)] have o1: "mask (4, 64, 64) (2, 30, 30) (3, 9, 49) = Some 1"
    by simp
  from exact [rule_format, OF v(3)] have o2: "mask (4, 64, 64) (2, 30, 30) (3, 10, 50) = Some 1"
    by simp
  from dom v(4) have out: "mask (4, 64, 64) (2, 30, 30) (4, 10, 49) = None" by blast
  from sh neg low' cube one mid far sh2 w z o1 o2 out show ?thesis by blast
qed

section \<open>Properties of the question loop\<close>

lemma py_int_digits [simp]:
  "py_int ''0'' = 0" "py_int ''1'' = 1" "py_int ''2'' = 2" "py_int ''3'' = 3"
  by (simp_all add: py_int_def)

lemma accept_best_Reject: "a \<notin> {''1'', ''2''} \<Longrightarrow> accept_best ms a = Reject"
  by (simp add: accept_best_def)

lemma accept_best_Accept:
  "a \<in> {''1'', ''2''} \<Longrightarrow> accept_best ms a = Accept (if a = ''1'' then ms ! 0 else ms ! 1)"
  by (auto simp: accept_best_def)

lemma accept_confidence_Reject: "a \<notin> {''1'', ''2'', ''3''} \<Longrightarrow> accept_confidence a = Reject"
  by (simp add: accept_confidence_def)

lemma accept_confidence_Accept:
  "a \<in> {''1'', ''2'', ''3''} \<Longrightarrow> accept_confidence a =
     Accept (if a = ''1'' then ''random'' else if a = ''2'' then ''uncertain'' else ''certain'')"
  by (auto simp: accept_confidence_def)

lemma accept_difference_Reject:
  "a \<notin> {''0'', ''1'', ''2'', ''3''} \<Longrightarrow> accept_difference a = Reject"
  by (simp add: accept_difference_def)

lemma accept_difference_Accept:
  "a \<in> {''0'', ''1'', ''2'', ''3''} \<Longrightarrow> accept_difference a =
     Accept (if a = ''0'' then 0 else if a = ''1'' then 1 else if a = ''2'' then 2 else 3)"
  unfolding accept_difference_def by (elim insertE emptyE) simp_all

lemma accept_fail_Reject: "a \<notin> {''0'', ''1'', ''2'', ''3''} \<Longrightarrow> accept_fail ms a = Reject"
  by (simp add: accept_fail_def)

lemma accept_fail_Accept:
  "a \<in> {''0'', ''1'', ''2'', ''3''} \<Longrightarrow> accept_fail ms a =
     Accept (if a = ''0'' then ''None'' else if a = ''1'' then ms ! 0
             else if a = ''2'' then ms ! 1 else ms ! 0 @ ''+'' @ ms ! 1)"
  unfolding accept_fail_def by (elim insertE emptyE) simp_all

lemma prompt_rejected:
  assumes "\<forall>a\<in>set bad. a \<noteq> ''stop'' \<and> accept a = Reject"
  shows "prompt dw p k accept (map Line bad @ ins) =
         (case prompt dw p k accept ins of
            (ev, r) \<Rightarrow> (concat (map (\<lambda>a. [Ask (hd p) k, Invalid a]) bad) @ ev, r))"
  using assms by (induction bad) (auto split: prod.splits)

lemma prompt_accepted:
  assumes "\<forall>a\<in>set bad. a \<noteq> ''stop'' \<and> accept a = Reject"
    and "a \<noteq> ''stop''" and "accept a = Accept v"
  shows "prompt dw p k accept (map Line bad @ Line a # ins) = (reasked p k bad, Answered v ins)"
  using assms by (simp add: prompt_rejected reasked_def)

text \<open>
  C4. Whatever the operator types: at each of the first four questions every answer
  outside the question's list (and other than the stop command) puts the same question
  again, after the error message, and consumes nothing else; the first answer from the
  list ends the question with its label and the next question starts on the input that
  follows. Preference 1/2 gives the method in slot 1/2; confidence 1/2/3 gives
  random/uncertain/certain; difference 0-3 gives that number; failure 0/1/2/3 gives
  None / the slot-1 method / the slot-2 method / both, joined by a plus sign. The comment
  question takes any line but the stop command.
\<close>

theorem answers_map_to_labels:
  assumes "\<forall>a\<in>set bad1. a \<noteq> ''stop'' \<and> a \<notin> {''1'', ''2''}"
    and "a1 \<in> {''1'', ''2''}"
    and "\<forall>a\<in>set bad2. a \<noteq> ''stop'' \<and> a \<notin> {''1'', ''2'', ''3''}"
    and "a2 \<in> {''1'', ''2'', ''3''}"
    and "\<forall>a\<in>set bad3. a \<noteq> ''stop'' \<and> a \<notin> {''0'', ''1'', ''2'', ''3''}"
    and "a3 \<in> {''0'', ''1'', ''2'', ''3''}"
    and "\<forall>a\<in>set bad4. a \<noteq> ''stop'' \<and> a \<notin> {''0'', ''1'', ''2'', ''3''}"
    and "a4 \<in> {''0'', ''1'', ''2'', ''3''}"
    and "c \<noteq> ''stop''"
  shows "question_loop dw p methods
           (map Line bad1 @ Line a1 # map Line bad2 @ Line a2 # map Line bad3 @ Line a3 #
            map Line bad4 @ Line a4 # Line c # rest) =
         (reasked p 1 bad1 @ reasked p 2 bad2 @ reasked p 3 bad3 @ reasked p 4 bad4 @
          [Ask (hd p) 5],
          Answered
            (if a1 = ''1'' then methods ! 0 else methods ! 1,
             if a2 = ''1'' then ''random'' else if a2 = ''2'' then ''uncertain'' else ''certain'',
             if a3 = ''0'' then 0 else if a3 = ''1'' then 1 else if a3 = ''2'' then 2 else 3,
             if a4 = ''0'' then ''None'' else if a4 = ''1'' then methods ! 0
             else if a4 = ''2'' then methods ! 1 else methods ! 0 @ ''+'' @ methods ! 1,
             c)
            rest)"
proof -
  have s: "a1 \<noteq> ''stop''" "a2 \<noteq> ''stop''" "a3 \<noteq> ''stop''" "a4 \<noteq> ''stop''"
    using assms(2,4,6,8) by auto
  have q1: "prompt dw p 1 (accept_best methods) (map Line bad1 @ Line a1 # ins) =
      (reasked p 1 bad1, Answered (if a1 = ''1'' then methods ! 0 else methods ! 1) ins)" for ins
    using assms(1) s(1) accept_best_Accept [OF assms(2)]
    by (intro prompt_accepted) (simp_all add: accept_best_Reject)
  have q2: "prompt dw p 2 accept_confidence (map Line bad2 @ Line a2 # ins) =
      (reasked p 2 bad2,
       Answered (if a2 = ''1'' then ''random'' else if a2 = ''2'' then ''uncertain''
                 else ''certain'') ins)" for ins
    using assms(3) s(2) accept_confidence_Accept [OF assms(4)]
    by (intro prompt_accepted) (simp_all add: accept_confidence_Reject)
  have q3: "prompt dw p 3 accept_difference (map Line bad3 @ Line a3 # ins) =
      (reasked p 3 bad3,
       Answered (if a3 = ''0'' then 0 else if a3 = ''1'' then 1 else if a3 = ''2'' then 2
                 else 3) ins)" for ins
    using assms(5) s(3) accept_difference_Accept [OF assms(6)]
    by (intro prompt_accepted) (simp_all add: accept_difference_Reject)
  have q4: "prompt dw p 4 (accept_fail methods) (map Line bad4 @ Line a4 # ins) =
      (reasked p 4 bad4,
       Answered (if a4 = ''0'' then ''None'' else if a4 = ''1'' then methods ! 0
                 else if a4 = ''2'' then methods ! 1
                 else methods ! 0 @ ''+'' @ methods ! 1) ins)" for ins
    using assms(7) s(4) accept_fail_Accept [OF assms(8)]
    by (intro prompt_accepted) (simp_all add: accept_fail_Reject)
  have q5: "prompt dw p 5 accept_comment (Line c # ins) = ([Ask (hd p) 5], Answered c ins)" for ins
    using assms(9) by (simp add: accept_comment_def)
  show ?thesis
    unfolding question_loop_def
    by (simp only: q1 q2 q3 q4 q5 and_then.simps prod.case append_Nil2 append_assoc)
qed

theorem answers_map_to_labels_witness:
  "question_loop False [0, 1] [''B'', ''A'']
     [Line ''3'', Line '''', Line ''2'', Line ''x'', Line ''1'', Line ''0'', Line ''9'',
      Line ''3'', Line ''fine'', Line ''1''] =
   ([Ask 0 1, Invalid ''3'', Ask 0 1, Invalid '''', Ask 0 1, Ask 0 2, Invalid ''x'', Ask 0 2,
     Ask 0 3, Ask 0 4, Invalid ''9'', Ask 0 4, Ask 0 5],
    Answered (''A'', ''random'', 0, ''B+A'', ''fine'') [Line ''1''])"
  using answers_map_to_labels [of "[''3'', '''']" "''2''" "[''x'']" "''1''" "[]" "''0''"
      "[''9'']" "''3''" "''fine''" False "[0, 1]" "[''B'', ''A'']" "[Line ''1'']"]
  by (simp add: reasked_def)
section \<open>Properties of the written record\<close>

lemma split_on_not_Nil: "split_on d s \<noteq> []"
  by (induction s) (auto split: list.splits)

lemma split_on_free: "d \<notin> set f \<Longrightarrow> split_on d f = [f]"
  by (induction f) auto

lemma split_on_field: "d \<notin> set f \<Longrightarrow> split_on d (f @ d # rest) = f # split_on d rest"
  by (induction f) (auto split: list.splits simp: split_on_not_Nil)

lemma split_on_join:
  "cols \<noteq> [] \<Longrightarrow> \<forall>f\<in>set cols. CHR '','' \<notin> set f
    \<Longrightarrow> split_on (CHR '','') (join cols) = cols"
  by (induction cols rule: join.induct) (simp_all add: split_on_free split_on_field)

lemma sanitize_free: "CHR '','' \<notin> set (sanitize comment)"
  by (auto simp: sanitize_def)

lemma sanitize_pointwise:
  "length (sanitize comment) = length comment \<and>
   (\<forall>i<length comment. sanitize comment ! i =
      (if comment ! i = CHR '','' then CHR '';'' else comment ! i))"
  by (simp add: sanitize_def)

lemma str_nat_small: "d \<le> 3 \<Longrightarrow> str_nat d \<in> {''0'', ''1'', ''2'', ''3''}"
proof -
  assume "d \<le> 3"
  then consider "d = 0" | "d = 1" | "d = 2" | "d = 3" by linarith
  then show ?thesis by cases (simp_all add: str_nat.simps)
qed

lemma and_then_Answered:
  assumes "and_then x f = (ev, Answered v rest)"
  shows "\<exists>ev1 v1 ins1 ev2. x = (ev1, Answered v1 ins1) \<and>
           f v1 ins1 = (ev2, Answered v rest) \<and> ev = ev1 @ ev2"
proof (cases x)
  case (Pair e o1)
  with assms show ?thesis
    by (cases o1) (auto split: prod.splits)
qed

lemma prompt_Answered:
  "prompt dw p k accept ins = (ev, Answered v rest)
    \<Longrightarrow> \<exists>a. a \<noteq> ''stop'' \<and> accept a = Accept v"
proof (induction dw p k accept ins arbitrary: ev rule: prompt.induct)
  case (3 darwin p k accept answer ins)
  show ?case
  proof (cases "answer = ''stop''")
    case True
    with 3(2) show ?thesis by simp
  next
    case False
    show ?thesis
    proof (cases "accept answer")
      case (Accept w)
      with False 3(2) show ?thesis by auto
    next
      case Reject
      with False 3(2) obtain ev' where "prompt darwin p k accept ins = (ev', Answered v rest)"
        by (auto split: prod.splits)
      with 3(1) [OF False Reject] show ?thesis by blast
    next
      case (Raise e)
      with False 3(2) show ?thesis by simp
    qed
  qed
qed simp_all

lemma accept_best_range: "accept_best ms a = Accept v \<Longrightarrow> v = ms ! 0 \<or> v = ms ! 1"
  by (auto simp: accept_best_def split: if_splits)

lemma accept_confidence_range:
  "accept_confidence a = Accept v \<Longrightarrow> v \<in> {''random'', ''uncertain'', ''certain''}"
  by (auto simp: accept_confidence_def split: if_splits)

lemma accept_difference_range: "accept_difference a = Accept v \<Longrightarrow> v \<le> 3"
  unfolding accept_difference_def by (auto split: if_splits)

lemma accept_fail_range:
  "accept_fail ms a = Accept v \<Longrightarrow> v \<in> {''None'', ms ! 0, ms ! 1, ms ! 0 @ ''+'' @ ms ! 1}"
  by (auto simp: accept_fail_def split: if_splits)

lemma question_loop_Answered:
  assumes "question_loop dw p ms ins = (ev, Answered (best, confidence, d, fail, comment) rest)"
  shows "(best = ms ! 0 \<or> best = ms ! 1) \<and>
         confidence \<in> {''random'', ''uncertain'', ''certain''} \<and> d \<le> 3 \<and>
         fail \<in> {''None'', ms ! 0, ms ! 1, ms ! 0 @ ''+'' @ ms ! 1} \<and> comment \<noteq> ''stop''"
proof -
  from and_then_Answered [OF assms [unfolded question_loop_def]]
  obtain e1 v1 i1 e1' where a1: "prompt dw p 1 (accept_best ms) ins = (e1, Answered v1 i1)"
    and r1: "and_then (prompt dw p 2 accept_confidence i1) (\<lambda>confidence ins.
     and_then (prompt dw p 3 accept_difference ins) (\<lambda>difference_strength ins.
     and_then (prompt dw p 4 (accept_fail ms) ins) (\<lambda>fail ins.
     and_then (prompt dw p 5 accept_comment ins) (\<lambda>comment ins.
       ([], Answered (v1, confidence, difference_strength, fail, comment) ins)))))
       = (e1', Answered (best, confidence, d, fail, comment) rest)"
    by blast
  from and_then_Answered [OF r1] obtain e2 v2 i2 e2' where a2: "prompt dw p 2 accept_confidence i1 = (e2, Answered v2 i2)"
    and r2: "and_then (prompt dw p 3 accept_difference i2) (\<lambda>difference_strength ins.
     and_then (prompt dw p 4 (accept_fail ms) ins) (\<lambda>fail ins.
     and_then (prompt dw p 5 accept_comment ins) (\<lambda>comment ins.
       ([], Answered (v1, v2, difference_strength, fail, comment) ins))))
       = (e2', Answered (best, confidence, d, fail, comment) rest)"
    by blast
  from and_then_Answered [OF r2] obtain e3 v3 i3 e3' where a3: "prompt dw p 3 accept_difference i2 = (e3, Answered v3 i3)"
    and r3: "and_then (prompt dw p 4 (accept_fail ms) i3) (\<lambda>fail ins.
     and_then (prompt dw p 5 accept_comment ins) (\<lambda>comment ins.
       ([], Answered (v1, v2, v3, fail, comment) ins)))
       = (e3', Answered (best, confidence, d, fail, comment) rest)"
    by blast
  from and_then_Answered [OF r3] obtain e4 v4 i4 e4' where a4: "prompt dw p 4 (accept_fail ms) i3 = (e4, Answered v4 i4)"
    and r4: "and_then (prompt dw p 5 accept_comment i4) (\<lambda>comment ins.
       ([], Answered (v1, v2, v3, v4, comment) ins))
       = (e4', Answered (best, confidence, d, fail, comment) rest)"
    by blast
  from and_then_Answered [OF r4] obtain e5 v5 i5 e5' where a5: "prompt dw p 5 accept_comment i4 = (e5, Answered v5 i5)"
    and r5: "([], Answered (v1, v2, v3, v4, v5) i5)
       = (e5', Answered (best, confidence, d, fail, comment) rest)"
    by blast
  from r5 have eq: "best = v1" "confidence = v2" "d = v3" "fail = v4" "comment = v5" by simp_all
  from prompt_Answered [OF a1] accept_best_range have "best = ms ! 0 \<or> best = ms ! 1"
    unfolding eq by blast
  moreover from prompt_Answered [OF a2] accept_confidence_range
  have "confidence \<in> {''random'', ''uncertain'', ''certain''}" unfolding eq by blast
  moreover from prompt_Answered [OF a3] accept_difference_range have "d \<le> 3"
    unfolding eq by blast
  moreover from prompt_Answered [OF a4] accept_fail_range
  have "fail \<in> {''None'', ms ! 0, ms ! 1, ms ! 0 @ ''+'' @ ms ! 1}" unfolding eq by blast
  moreover from prompt_Answered [OF a5] have "comment \<noteq> ''stop''"
    unfolding eq by (auto simp: accept_comment_def)
  ultimately show ?thesis by blast
qed

text \<open>
  C5, as stated, with a labeler name that contains a comma: the answers are those of a
  completed question sequence, the comment's comma is replaced, and the written line
  splits into twelve fields, not eleven.
\<close>

theorem comma_in_user_gives_twelve_fields:
  "question_loop False [0, 1] [''A'', ''B''] sample_answers =
     ([Ask 0 1, Ask 0 2, Ask 0 3, Ask 0 4, Ask 0 5],
      Answered (''A'', ''certain'', 2, ''None'', ''a,b'') []) \<and>
   length (parse_line (written_line (sample_row ''S1'') [''A'', ''B'']
     (''A'', ''certain'', 2, ''None'', ''a,b'') ''Doe, J'' ''7.25'')) = 12"
  by code_simp

text \<open>
  C5, amended. Provided the subject identifier, the two method names, the labeler name
  and the printed elapsed time and difference count contain no comma: for the answers of
  a completed question sequence, whatever the comment, the written line ends with a
  newline and, without it, splits at the commas into exactly the eleven documented
  fields, in order; the comment field is the comment with every comma replaced by a
  semicolon (same length, all other characters unchanged), and contains no comma.
\<close>

theorem written_line_has_eleven_fields:
  assumes "question_loop dw p methods ins =
             (ev, Answered (best, confidence, d, fail, comment) rest)"
    and "\<forall>f\<in>{str_cell (ID r), methods ! 0, methods ! 1, usr, time, num_differences r}.
           CHR '','' \<notin> set f"
  shows "parse_line (written_line r methods (best, confidence, d, fail, comment) usr time) =
           [str_cell (ID r), methods ! 0, methods ! 1, best, confidence, str_nat d, fail,
            sanitize comment, usr, time, num_differences r] \<and>
         length (parse_line (written_line r methods (best, confidence, d, fail, comment) usr time)) = 11 \<and>
         last (written_line r methods (best, confidence, d, fail, comment) usr time) = CHR 0x0A \<and>
         CHR '','' \<notin> set (sanitize comment) \<and>
         length (sanitize comment) = length comment \<and>
         (\<forall>i<length comment. sanitize comment ! i =
            (if comment ! i = CHR '','' then CHR '';'' else comment ! i))"
proof -
  let ?cols = "[str_cell (ID r), methods ! 0, methods ! 1, best, confidence, str_nat d, fail,
            sanitize comment, usr, time, num_differences r]"
  note q = question_loop_Answered [OF assms(1)]
  from assms(2) have free: "CHR '','' \<notin> set (str_cell (ID r))" "CHR '','' \<notin> set (methods ! 0)"
    "CHR '','' \<notin> set (methods ! 1)" "CHR '','' \<notin> set usr" "CHR '','' \<notin> set time"
    "CHR '','' \<notin> set (num_differences r)" by simp_all
  from q free have b: "CHR '','' \<notin> set best" by auto
  from q have c: "CHR '','' \<notin> set confidence" by auto
  from q str_nat_small [of d] have n: "CHR '','' \<notin> set (str_nat d)" by auto
  from q free have f: "CHR '','' \<notin> set fail" by auto
  have all: "\<forall>f\<in>set ?cols. CHR '','' \<notin> set f"
    using free b c n f sanitize_free [of comment] by simp
  have line: "written_line r methods (best, confidence, d, fail, comment) usr time =
      join ?cols @ [CHR 0x0A]"
    by (simp add: written_line_def record_line_def record_fields_def)
  have "parse_line (join ?cols @ [CHR 0x0A]) = split_on (CHR '','') (join ?cols)"
    by (simp only: parse_line_def butlast_snoc)
  also have "\<dots> = ?cols" using all by (intro split_on_join) simp
  finally have parsed: "parse_line (written_line r methods (best, confidence, d, fail, comment) usr time) = ?cols"
    unfolding line .
  have len: "length (parse_line (written_line r methods (best, confidence, d, fail, comment) usr time)) = 11"
    unfolding parsed by simp
  have nl: "last (written_line r methods (best, confidence, d, fail, comment) usr time) = CHR 0x0A"
    unfolding line by simp
  from parsed len nl sanitize_free [of comment] sanitize_pointwise [of comment]
  show ?thesis by blast
qed

theorem written_line_has_eleven_fields_witness:
  "question_loop False [0, 1] [''A'', ''B''] sample_answers =
     ([Ask 0 1, Ask 0 2, Ask 0 3, Ask 0 4, Ask 0 5],
      Answered (''A'', ''certain'', 2, ''None'', ''a,b'') []) \<and>
   parse_line (written_line (sample_row ''S1'') [''A'', ''B'']
     (''A'', ''certain'', 2, ''None'', ''a,b'') ''ann'' ''7.25'') =
     [''S1'', ''A'', ''B'', ''A'', ''certain'', ''2'', ''None'', ''a;b'', ''ann'', ''7.25'', ''12'']"
proof -
  have q: "question_loop False [0, 1] [''A'', ''B''] sample_answers =
     ([Ask 0 1, Ask 0 2, Ask 0 3, Ask 0 4, Ask 0 5],
      Answered (''A'', ''certain'', 2, ''None'', ''a,b'') [])"
    by code_simp
  have f: "\<forall>f\<in>{str_cell (ID (sample_row ''S1'')), [''A'', ''B''] ! 0, [''A'', ''B''] ! 1, ''ann'', ''7.25'',
      num_differences (sample_row ''S1'')}. CHR '','' \<notin> set f"
    by (simp add: sample_row_def str_cell_def)
  have s: "sanitize ''a,b'' = ''a;b''" "str_nat 2 = ''2''"
    by (simp_all add: sanitize_def str_nat.simps)
  from written_line_has_eleven_fields [OF q f]
  have "parse_line (written_line (sample_row ''S1'') [''A'', ''B'']
     (''A'', ''certain'', 2, ''None'', ''a,b'') ''ann'' ''7.25'') =
     [str_cell (ID (sample_row ''S1'')), [''A'', ''B''] ! 0, [''A'', ''B''] ! 1, ''A'', ''certain'',
      str_nat 2,
      ''None'', sanitize ''a,b'', ''ann'', ''7.25'', num_differences (sample_row ''S1'')]"
    by blast
  then have "parse_line (written_line (sample_row ''S1'') [''A'', ''B'']
     (''A'', ''certain'', 2, ''None'', ''a,b'') ''ann'' ''7.25'') =
     [''S1'', ''A'', ''B'', ''A'', ''certain'', ''2'', ''None'', ''a;b'', ''ann'', ''7.25'', ''12'']"
    by (simp add: s sample_row_def str_cell_def)
  with q show ?thesis by blast
qed

section \<open>Start-up\<close>

text \<open>
  C9. The claim: the viewer install root, when not given on the command line, is taken
  from the environment variable or else from the well-known install locations. With no
  \<open>--fs\<close> and \<open>FREESURFER_HOME\<close> unset the lookup \<open>os.environ["FREESURFER_HOME"]\<close> raises
  \<open>KeyError\<close>: the program ends there, whatever directories exist, and the install
  locations are never tried. With \<open>--fs\<close> given, \<open>freesurfer_path\<close> is never assigned and
  the first launch raises \<open>NameError\<close>.
\<close>

theorem install_root_not_resolved:
  "resolve_freesurfer_path sample_args sample_host_without_home =
     Inl (KeyError ''FREESURFER_HOME'') \<and>
   main sample_args sample_host_without_home None three_subjects sample_answers =
     ([], None, Crash (KeyError ''FREESURFER_HOME'')) \<and>
   resolve_freesurfer_path sample_args_with_fs sample_host = Inr None \<and>
   main sample_args_with_fs sample_host None three_subjects sample_answers =
     ([], None, Crash (NameError ''freesurfer_path''))"
  by code_simp

section \<open>Runs of the program\<close>

text \<open>
  C1. The claim: with three subjects, none labelled before, and methods A and B, a run to
  completion appends exactly three records. The loop runs over the pairs of neighbouring
  rows, so the last row is only ever the prefetched one: with answers for all three
  subjects on the console the program completes after two passes, two records are in
  the results file, and the third subject was launched but never asked about.
\<close>

theorem three_subjects_two_records:
  "snd (snd (main sample_args sample_host None three_subjects
      (sample_answers @ sample_answers @ sample_answers))) = Completed \<and>
   map_option (map parse_line)
     (fst (snd (main sample_args sample_host None three_subjects
       (sample_answers @ sample_answers @ sample_answers)))) =
     Some [[''S1'', ''A'', ''B'', ''A'', ''certain'', ''2'', ''None'', ''a;b'', ''ann'', ''7.25'', ''12''],
           [''S2'', ''B'', ''A'', ''B'', ''certain'', ''2'', ''None'', ''a;b'', ''ann'', ''7.25'', ''12'']] \<and>
   launched_subjects (fst (main sample_args sample_host None three_subjects
      (sample_answers @ sample_answers @ sample_answers))) = [''sub-S1'', ''sub-S2'', ''sub-S3'']"
  by code_simp
section \<open>Traces\<close>

lemma launches_simps [simp]:
  "launches [] = []" "launches (e # es) = launch_of e @ launches es"
  "launches (xs @ ys) = launches xs @ launches ys"
  by (simp_all add: launches_def)

lemma terminations_simps [simp]:
  "terminations [] = []" "terminations (e # es) = term_of e @ terminations es"
  "terminations (xs @ ys) = terminations xs @ terminations ys"
  by (simp_all add: terminations_def)

lemma asks_simps [simp]:
  "asks [] = []" "asks (e # es) = ask_of e @ asks es"
  "asks (xs @ ys) = asks xs @ asks ys"
  by (simp_all add: asks_def)

lemma appends_simps [simp]:
  "appends [] = []" "appends (e # es) = append_of e @ appends es"
  "appends (xs @ ys) = appends xs @ appends ys"
  by (simp_all add: appends_def)

lemma launched_subjects_append [simp]:
  "launched_subjects (xs @ ys) = launched_subjects xs @ launched_subjects ys"
  by (induction xs rule: launched_subjects.induct) simp_all

lemma projections_replicate_Sleep [simp]:
  "launches (replicate n (Sleep d)) = []" "terminations (replicate n (Sleep d)) = []"
  "asks (replicate n (Sleep d)) = []" "appends (replicate n (Sleep d)) = []"
  "launched_subjects (replicate n (Sleep d)) = []"
  by (induction n) simp_all

lemma terminate_simps [simp]:
  "launch_of (terminate dw p) = []" "term_of (terminate dw p) = [p]"
  "ask_of (terminate dw p) = []" "append_of (terminate dw p) = []"
  by (simp_all add: terminate_def)

lemma stop_labeling_projections [simp]:
  "launches (stop_labeling dw p) = []" "terminations (stop_labeling dw p) = p"
  "asks (stop_labeling dw p) = []" "appends (stop_labeling dw p) = []"
  by (induction p) (simp_all add: stop_labeling_def)

lemma run_freeview_projections [simp]:
  "launches (run_freeview h n subj s1 s2) = [n]" "terminations (run_freeview h n subj s1 s2) = []"
  "asks (run_freeview h n subj s1 s2) = []" "appends (run_freeview h n subj s1 s2) = []"
  "launched_subjects (run_freeview h n subj s1 s2) = [subj]"
  by (simp_all add: run_freeview_def)

lemma reveal_projections [simp]:
  "launches (reveal h p) = []" "terminations (reveal h p) = []"
  "asks (reveal h p) = []" "appends (reveal h p) = []" "launched_subjects (reveal h p) = []"
  by (simp_all add: reveal_def)

lemma teardown_projections [simp]:
  "launches (teardown h p) = []" "terminations (teardown h p) = [p]"
  "asks (teardown h p) = []" "appends (teardown h p) = []" "launched_subjects (teardown h p) = []"
  by (simp_all add: teardown_def terminate_def)

lemma terminate_in_teardown: "terminate (darwin h) p \<in> set (teardown h p)"
  by (simp add: teardown_def terminate_def)

subsection \<open>The questions\<close>

lemma prompt_tidy:
  "prompt dw p k accept ins = (ev, out) \<Longrightarrow> 1 \<le> k \<Longrightarrow> k \<le> 5 \<Longrightarrow>
        launches ev = [] \<and> appends ev = [] \<and>
        (\<forall>x\<in>set (asks ev). fst x = hd p \<and> 1 \<le> snd x \<and> snd x \<le> 5) \<and>
        terminations ev = (if out = Stopped then p else [])"
proof (induction dw p k accept ins arbitrary: ev out rule: prompt.induct)
  case (1 darwin p k accept)
  then show ?case by auto
next
  case (2 darwin p k accept ins)
  then show ?case by auto
next
  case (3 darwin p k accept answer ins)
  show ?case
  proof (cases "answer = ''stop''")
    case True
    with "3.prems" show ?thesis by auto
  next
    case False
    show ?thesis
    proof (cases "accept answer")
      case (Accept v)
      with False "3.prems" show ?thesis by auto
    next
      case Reject
      obtain ev' r where rec: "prompt darwin p k accept ins = (ev', r)" by force
      from "3.IH" [OF False Reject rec "3.prems"(2,3)] "3.prems" False Reject rec
      show ?thesis by auto
    next
      case (Raise e)
      with False "3.prems" show ?thesis by auto
    qed
  qed
qed

lemma tidy_prompt: "1 \<le> k \<Longrightarrow> k \<le> 5 \<Longrightarrow> tidy p (prompt dw p k accept)"
  unfolding tidy_def using prompt_tidy by blast

lemma tidy_and_then:
  assumes "tidy p f" and "\<And>v. tidy p (g v)"
  shows "tidy p (\<lambda>ins. and_then (f ins) g)"
  unfolding tidy_def
proof (intro allI impI)
  fix ins ev out
  assume run: "and_then (f ins) g = (ev, out)"
  obtain ev1 o1 where f: "f ins = (ev1, o1)" by force
  note tf = assms(1) [unfolded tidy_def, rule_format, OF f]
  show "launches ev = [] \<and> appends ev = [] \<and>
        (\<forall>x\<in>set (asks ev). fst x = hd p \<and> 1 \<le> snd x \<and> snd x \<le> 5) \<and>
        terminations ev = (if out = Stopped then p else [])"
  proof (cases o1)
    case (Answered v rest)
    obtain ev2 where g: "g v rest = (ev2, out)" and ev: "ev = ev1 @ ev2"
      using run f Answered by (auto split: prod.splits)
    note tg = assms(2) [unfolded tidy_def, rule_format, OF g]
    from tf tg Answered ev show ?thesis by auto
  next
    case Stopped
    with run f tf show ?thesis by auto
  next
    case (Failed e)
    with run f tf show ?thesis by auto
  qed
qed

lemma tidy_return: "tidy p (\<lambda>ins. ([], Answered (c ins) ins))"
  by (simp add: tidy_def)

lemma tidy_question_loop: "tidy p (question_loop dw p ms)"
proof -
  have "tidy p (\<lambda>ins. question_loop dw p ms ins)"
    unfolding question_loop_def
    by (intro tidy_and_then tidy_prompt) (simp_all add: tidy_def)
  then show ?thesis by simp
qed
lemma prompt_more_input:
  "prompt dw p k accept ins = (ev, Answered v rest)
    \<Longrightarrow> prompt dw p k accept (ins @ xs) = (ev, Answered v (rest @ xs))"
proof (induction dw p k accept ins arbitrary: ev rule: prompt.induct)
  case (3 darwin p k accept answer ins)
  show ?case
  proof (cases "answer = ''stop''")
    case True
    with "3.prems" show ?thesis by simp
  next
    case False
    show ?thesis
    proof (cases "accept answer")
      case (Accept w)
      with False "3.prems" show ?thesis by auto
    next
      case Reject
      obtain ev' where rec: "prompt darwin p k accept ins = (ev', Answered v rest)"
        and ev: "ev = Ask (hd p) k # Invalid answer # ev'"
        using "3.prems" False Reject by (auto split: prod.splits)
      from "3.IH" [OF False Reject rec] ev False Reject show ?thesis by simp
    next
      case (Raise e)
      with False "3.prems" show ?thesis by simp
    qed
  qed
qed simp_all

lemma prompt_stop_after_eof:
  "prompt dw p k accept ins = (ev, Failed EOFError) \<Longrightarrow> \<forall>a. accept a \<noteq> Raise EOFError
    \<Longrightarrow> is_stop tok
    \<Longrightarrow> prompt dw p k accept (ins @ tok # post) = (ev @ stop_labeling dw p, Stopped) \<and>
        ev \<noteq> [] \<and> last ev = Ask (hd p) k"
proof (induction dw p k accept ins arbitrary: ev rule: prompt.induct)
  case (1 darwin p k accept)
  then show ?case by (auto simp: is_stop_def)
next
  case (2 darwin p k accept ins)
  then show ?case by simp
next
  case (3 darwin p k accept answer ins)
  show ?case
  proof (cases "answer = ''stop''")
    case True
    with "3.prems" show ?thesis by simp
  next
    case False
    show ?thesis
    proof (cases "accept answer")
      case (Accept w)
      with False "3.prems" show ?thesis by auto
    next
      case Reject
      obtain ev' where rec: "prompt darwin p k accept ins = (ev', Failed EOFError)"
        and ev: "ev = Ask (hd p) k # Invalid answer # ev'"
        using "3.prems" False Reject by (auto split: prod.splits)
      from "3.IH" [OF False Reject rec "3.prems"(2,3)] ev False Reject show ?thesis by simp
    next
      case (Raise e)
      with False "3.prems" show ?thesis by auto
    qed
  qed
qed

lemma extendsI:
  assumes "\<And>ins ev v rest xs. f ins = (ev, Answered v rest)
             \<Longrightarrow> f (ins @ xs) = (ev, Answered v (rest @ xs))"
    and "\<And>ins ev tok post. f ins = (ev, Failed EOFError) \<Longrightarrow> is_stop tok
             \<Longrightarrow> f (ins @ tok # post) = (ev @ stop_labeling dw p, Stopped) \<and>
                 ev \<noteq> [] \<and> (\<exists>k. last ev = Ask (hd p) k \<and> 1 \<le> k \<and> k \<le> 5)"
  shows "extends dw p f"
proof (unfold extends_def, rule conjI)
  show "\<forall>ins ev v rest xs. f ins = (ev, Answered v rest) \<longrightarrow>
          f (ins @ xs) = (ev, Answered v (rest @ xs))"
    by (intro allI impI) (rule assms(1))
  show "\<forall>ins ev tok post. f ins = (ev, Failed EOFError) \<and> is_stop tok \<longrightarrow>
          f (ins @ tok # post) = (ev @ stop_labeling dw p, Stopped) \<and>
          ev \<noteq> [] \<and> (\<exists>k. last ev = Ask (hd p) k \<and> 1 \<le> k \<and> k \<le> 5)"
    by (intro allI impI, elim conjE) (rule assms(2))
qed

lemma extends_more:
  "extends dw p f \<Longrightarrow> f ins = (ev, Answered v rest)
    \<Longrightarrow> f (ins @ xs) = (ev, Answered v (rest @ xs))"
  unfolding extends_def by (elim conjE allE [where P = "\<lambda>x. _ x"]) blast

lemma extends_stop:
  "extends dw p f \<Longrightarrow> f ins = (ev, Failed EOFError) \<Longrightarrow> is_stop tok
    \<Longrightarrow> f (ins @ tok # post) = (ev @ stop_labeling dw p, Stopped) \<and>
        ev \<noteq> [] \<and> (\<exists>k. last ev = Ask (hd p) k \<and> 1 \<le> k \<and> k \<le> 5)"
  unfolding extends_def by (elim conjE) blast

lemma extends_prompt:
  assumes "\<forall>a. accept a \<noteq> Raise EOFError" "1 \<le> k" "k \<le> 5"
  shows "extends dw p (prompt dw p k accept)"
proof (rule extendsI)
  fix ins ev v rest xs
  assume "prompt dw p k accept ins = (ev, Answered v rest)"
  then show "prompt dw p k accept (ins @ xs) = (ev, Answered v (rest @ xs))"
    by (rule prompt_more_input)
next
  fix ins ev tok post
  assume "prompt dw p k accept ins = (ev, Failed EOFError)" and "is_stop tok"
  from prompt_stop_after_eof [OF this(1) assms(1) this(2)] assms(2,3)
  show "prompt dw p k accept (ins @ tok # post) = (ev @ stop_labeling dw p, Stopped) \<and>
        ev \<noteq> [] \<and> (\<exists>k. last ev = Ask (hd p) k \<and> 1 \<le> k \<and> k \<le> 5)"
    by blast
qed

lemma extends_and_then:
  assumes "extends dw p f" and "\<And>v. extends dw p (g v)"
  shows "extends dw p (\<lambda>ins. and_then (f ins) g)"
proof (rule extendsI)
  fix ins ev v rest xs
  assume run: "and_then (f ins) g = (ev, Answered v rest)"
  from and_then_Answered [OF run] obtain ev1 v1 r1 ev2
    where f: "f ins = (ev1, Answered v1 r1)" and g: "g v1 r1 = (ev2, Answered v rest)"
      and ev: "ev = ev1 @ ev2" by blast
  from extends_more [OF assms(1) f] have "f (ins @ xs) = (ev1, Answered v1 (r1 @ xs))" .
  moreover from extends_more [OF assms(2) g]
  have "g v1 (r1 @ xs) = (ev2, Answered v (rest @ xs))" .
  ultimately show "and_then (f (ins @ xs)) g = (ev, Answered v (rest @ xs))"
    using ev by simp
next
  fix ins ev tok post
  assume run: "and_then (f ins) g = (ev, Failed EOFError)" and tok: "is_stop tok"
  obtain ev1 o1 where f: "f ins = (ev1, o1)" by force
  show "and_then (f (ins @ tok # post)) g = (ev @ stop_labeling dw p, Stopped) \<and>
        ev \<noteq> [] \<and> (\<exists>k. last ev = Ask (hd p) k \<and> 1 \<le> k \<and> k \<le> 5)"
  proof (cases o1)
    case (Answered v1 r1)
    with run f obtain ev2 where g: "g v1 r1 = (ev2, Failed EOFError)" and ev: "ev = ev1 @ ev2"
      by (auto split: prod.splits)
    from extends_more [OF assms(1) f [unfolded Answered]]
    have f': "f (ins @ tok # post) = (ev1, Answered v1 (r1 @ tok # post))" .
    from extends_stop [OF assms(2) g tok]
    have g': "g v1 (r1 @ tok # post) = (ev2 @ stop_labeling dw p, Stopped)"
      and ne: "ev2 \<noteq> []" and l: "\<exists>k. last ev2 = Ask (hd p) k \<and> 1 \<le> k \<and> k \<le> 5"
      by blast+
    from f' g' ne l ev show ?thesis by simp
  next
    case Stopped
    with run f show ?thesis by simp
  next
    case (Failed e)
    with run f have e: "e = EOFError" and ev: "ev = ev1" by simp_all
    from extends_stop [OF assms(1) f [unfolded Failed e] tok] ev show ?thesis by simp
  qed
qed

lemma extends_return: "extends dw p (\<lambda>ins. ([], Answered c ins))"
  by (simp add: extends_def)

lemma accepts_never_eof:
  "\<forall>a. accept_best ms a \<noteq> Raise EOFError" "\<forall>a. accept_confidence a \<noteq> Raise EOFError"
  "\<forall>a. accept_difference a \<noteq> Raise EOFError" "\<forall>a. accept_fail ms a \<noteq> Raise EOFError"
  "\<forall>a. accept_comment a \<noteq> Raise EOFError"
  by (simp_all add: accept_best_def accept_confidence_def accept_difference_def
      accept_fail_def accept_comment_def)

lemma extends_question_loop: "extends dw p (question_loop dw p ms)"
proof -
  have "extends dw p (\<lambda>ins. question_loop dw p ms ins)"
    unfolding question_loop_def
    by (intro extends_and_then extends_prompt extends_return accepts_never_eof) simp_all
  then show ?thesis by simp
qed
subsection \<open>One pass of the loop\<close>

lemma launched_subjects_none: "launches ev = [] \<Longrightarrow> launched_subjects ev = []"
  by (induction ev rule: launched_subjects.induct) simp_all

lemma set_window_cases:
  assumes "set_window a h fsp idx n r = (ev, res)"
  shows "(\<exists>e. res = Inl e \<and> e \<noteq> EOFError \<and> ev = []) \<or>
         (\<exists>idx' ms s1 s2. res = Inr (idx', ms) \<and> ev = run_freeview h n (subject_id r) s1 s2)"
  using assms
  by (auto simp: set_window_def Let_def lookup_segmentations_def
      split: sum.splits option.splits)

lemma windows_cases:
  assumes "consistent s" and "windows a h fsp s r r' = (ev, res)"
  shows "terminations ev = [] \<and> asks ev = [] \<and> appends ev = [] \<and>
         (case res of
            Inl e \<Rightarrow> e \<noteq> EOFError \<and>
              (launches ev = [] \<and> launched_subjects ev = [] \<or>
               p_next s = None \<and> launches ev = [cur s] \<and> launched_subjects ev = [subject_id r])
          | Inr (p, pn, ms, s1) \<Rightarrow>
              p = cur s \<and> pn = Suc p \<and> p_next s1 = Some pn \<and> launched s1 = Suc pn \<and>
              inputs s1 = inputs s \<and> results s1 = results s \<and>
              already_labeled s1 = already_labeled s \<and>
              launches ev = (if p_next s = None then [p, pn] else [pn]) \<and>
              launched_subjects ev =
                (if p_next s = None then [subject_id r, subject_id r'] else [subject_id r']))"
proof (cases "p_next s")
  case None
  obtain ev1 res1 where w1: "set_window a h fsp [0, 1] (launched s) r = (ev1, res1)" by force
  from set_window_cases [OF w1] show ?thesis
  proof (elim disjE exE conjE)
    fix e assume "res1 = Inl e" "e \<noteq> EOFError" "ev1 = []"
    with assms(2) None w1 show ?thesis by (auto simp: windows_def)
  next
    fix idx1 ms s1 s2
    assume r1: "res1 = Inr (idx1, ms)" and e1: "ev1 = run_freeview h (launched s) (subject_id r) s1 s2"
    obtain ev2 res2 where w2: "set_window a h fsp idx1 (launched s + 1) r' = (ev2, res2)" by force
    from set_window_cases [OF w2] show ?thesis
    proof (elim disjE exE conjE)
      fix e assume "res2 = Inl e" "e \<noteq> EOFError" "ev2 = []"
      with assms(2) None w1 w2 r1 e1 show ?thesis by (auto simp: windows_def cur_def)
    next
      fix idx2 ms' t1 t2
      assume "res2 = Inr (idx2, ms')" "ev2 = run_freeview h (launched s + 1) (subject_id r') t1 t2"
      with assms(2) None w1 w2 r1 e1 show ?thesis by (auto simp: windows_def cur_def)
    qed
  qed
next
  case (Some p)
  with assms(1) have l: "launched s = Suc p" by (simp add: consistent_def)
  obtain ev1 res1 where w1: "set_window a h fsp (method_idx s) (launched s) r' = (ev1, res1)"
    by force
  from set_window_cases [OF w1] show ?thesis
  proof (elim disjE exE conjE)
    fix e assume "res1 = Inl e" "e \<noteq> EOFError" "ev1 = []"
    with assms(2) Some w1 show ?thesis by (auto simp: windows_def)
  next
    fix idx1 ms s1 s2
    assume "res1 = Inr (idx1, ms)" "ev1 = run_freeview h (launched s) (subject_id r') s1 s2"
    with assms(2) Some w1 l show ?thesis by (auto simp: windows_def cur_def)
  qed
qed

lemma windows_inputs:
  "windows a h fsp (s\<lparr>inputs := i\<rparr>) r r' =
     (case windows a h fsp s r r' of
        (ev, Inl e) \<Rightarrow> (ev, Inl e)
      | (ev, Inr (p, pn, ms, s1)) \<Rightarrow> (ev, Inr (p, pn, ms, s1\<lparr>inputs := i\<rparr>)))"
  by (simp add: windows_def split: option.splits prod.splits sum.splits)

lemma written_line_starts_with_ID:
  "\<exists>rest. written_line r ms ans usr t = str_cell (ID r) @ CHR '','' # rest"
  by (cases ans) (simp add: written_line_def record_line_def record_fields_def)

lemma iteration_cases [consumes 2, case_names crashed asked labelled]:
  assumes "consistent s" and "iteration a h fsp usr s (r, r') = (ev, s', st)"
  obtains
    (crashed) e where "st = Some (Crash e)" "e \<noteq> EOFError" "s' = s"
      "terminations ev = []" "asks ev = []" "appends ev = []"
      "launches ev = [] \<and> launched_subjects ev = [] \<or>
       p_next s = None \<and> launches ev = [cur s] \<and> launched_subjects ev = [subject_id r]"
  | (asked) L Q x where "st = Some x" "x = Exit 0 \<or> (\<exists>e. x = Crash e)" "ev = L @ Q"
      "results s' = results s"
      "terminations L = []" "asks L = []" "appends L = []"
      "launches L = (if p_next s = None then [cur s, Suc (cur s)] else [Suc (cur s)])"
      "launched_subjects L =
         (if p_next s = None then [subject_id r, subject_id r'] else [subject_id r'])"
      "launches Q = []" "appends Q = []"
      "\<forall>x\<in>set (asks Q). fst x = cur s \<and> 1 \<le> snd x \<and> snd x \<le> 5"
      "terminations Q = (if x = Exit 0 then [cur s, Suc (cur s)] else [])"
      "x = Crash EOFError \<longrightarrow> Q \<noteq> [] \<and> (\<exists>k. last Q = Ask (cur s) k \<and> 1 \<le> k \<and> k \<le> 5)"
  | (labelled) L Q line where "st = None"
      "ev = L @ Q @ teardown h (cur s) @ [Append (cur s) line]"
      "terminations L = []" "asks L = []" "appends L = []"
      "launches L = (if p_next s = None then [cur s, Suc (cur s)] else [Suc (cur s)])"
      "launched_subjects L =
         (if p_next s = None then [subject_id r, subject_id r'] else [subject_id r'])"
      "launches Q = []" "appends Q = []" "terminations Q = []"
      "\<forall>x\<in>set (asks Q). fst x = cur s \<and> 1 \<le> snd x \<and> snd x \<le> 5"
      "consistent s'" "p_next s' = Some (Suc (cur s))" "cur s' = Suc (cur s)"
      "results s' = append_line (results s) line"
      "\<exists>rest. line = str_cell (ID r) @ CHR '','' # rest"
      "\<exists>ms ans t. line = written_line r ms ans usr t"
proof -
  obtain ev1 res where w: "windows a h fsp s r r' = (ev1, res)" by force
  note wc = windows_cases [OF assms(1) w]
  show thesis
  proof (cases res)
    case (Inl e)
    with assms(2) w have "st = Some (Crash e)" "s' = s" "ev = ev1"
      by (simp_all add: iteration_def)
    with wc Inl show thesis by (intro crashed [of e]) simp_all
  next
    case (Inr quad)
    obtain p pn ms s1 where quad: "quad = (p, pn, ms, s1)" by (cases quad)
    from wc Inr quad have p: "p = cur s" and pn: "pn = Suc (cur s)"
      and s1: "p_next s1 = Some pn" "launched s1 = Suc pn" "inputs s1 = inputs s"
        "results s1 = results s"
      and L: "terminations ev1 = []" "asks ev1 = []" "appends ev1 = []"
        "launches ev1 = (if p_next s = None then [cur s, Suc (cur s)] else [Suc (cur s)])"
        "launched_subjects ev1 =
           (if p_next s = None then [subject_id r, subject_id r'] else [subject_id r'])"
      by simp_all
    obtain ev2 out where q: "question_loop (darwin h) [p, pn] ms (inputs s1) = (ev2, out)"
      by force
    from tidy_question_loop [unfolded tidy_def, rule_format, OF q]
    have Q: "launches ev2 = []" "appends ev2 = []"
      "\<forall>x\<in>set (asks ev2). fst x = p \<and> 1 \<le> snd x \<and> snd x \<le> 5"
      "terminations ev2 = (if out = Stopped then [p, pn] else [])"
      by simp_all
    show thesis
    proof (cases out)
      case (Answered ans rest)
      define line where "line = written_line r ms ans usr (label_time h (already_labeled s1))"
      from assms(2) w Inr quad q Answered
      have st: "st = None" and ev: "ev = ev1 @ (reveal h p @ ev2) @ teardown h p @ [Append p line]"
        and s': "s' = s1\<lparr>already_labeled := already_labeled s1 + 1,
                        results := append_line (results s1) line, inputs := rest\<rparr>"
        by (simp_all add: iteration_def line_def Let_def)
      from s' s1 have c: "consistent s'" "p_next s' = Some (Suc (cur s))" "cur s' = Suc (cur s)"
        "results s' = append_line (results s) line"
        by (simp_all add: consistent_def cur_def pn)
      have id: "\<exists>rest. line = str_cell (ID r) @ CHR '','' # rest"
        unfolding line_def by (rule written_line_starts_with_ID)
      have wr: "\<exists>ms ans t. line = written_line r ms ans usr t"
        unfolding line_def by blast
      from st ev L Q Answered c id wr show thesis
        unfolding p pn by (intro labelled [of ev1 "reveal h (cur s) @ ev2" line]) simp_all
    next
      case Stopped
      from assms(2) w Inr quad q Stopped
      have "st = Some (Exit 0)" "ev = ev1 @ (reveal h p @ ev2)" "s' = s1"
        by (simp_all add: iteration_def)
      with L Q Stopped s1 show thesis
        unfolding p pn by (intro asked [of "Exit 0" ev1 "reveal h (cur s) @ ev2"]) simp_all
    next
      case (Failed e)
      from assms(2) w Inr quad q Failed
      have st: "st = Some (Crash e)" "ev = ev1 @ (reveal h p @ ev2)" "s' = s1"
        by (simp_all add: iteration_def)
      have eof: "Crash e = Crash EOFError \<longrightarrow> reveal h (cur s) @ ev2 \<noteq> [] \<and>
          (\<exists>k. last (reveal h (cur s) @ ev2) = Ask (cur s) k \<and> 1 \<le> k \<and> k \<le> 5)"
      proof
        assume "Crash e = Crash EOFError"
        then have "question_loop (darwin h) [p, pn] ms (inputs s1) = (ev2, Failed EOFError)"
          using q Failed by simp
        from extends_stop [OF extends_question_loop this, of Interrupt]
        have "ev2 \<noteq> []" "\<exists>k. last ev2 = Ask p k \<and> 1 \<le> k \<and> k \<le> 5"
          by (simp_all add: is_stop_def)
        then show "reveal h (cur s) @ ev2 \<noteq> [] \<and>
          (\<exists>k. last (reveal h (cur s) @ ev2) = Ask (cur s) k \<and> 1 \<le> k \<and> k \<le> 5)"
          unfolding p by simp
      qed
      from st L Q Failed s1 eof show thesis
        unfolding p pn by (intro asked [of "Crash e" ev1 "reveal h (cur s) @ ev2"]) simp_all
    qed
  qed
qed
subsection \<open>Live sessions\<close>

lemma track_launch_only:
  "terminations ev = [] \<Longrightarrow> foldl track A ev = A \<union> set (launches ev)"
  by (induction ev arbitrary: A) (auto elim: term_of.elims launch_of.elims)

lemma track_no_launch:
  "launches ev = [] \<Longrightarrow> foldl track A ev = A - set (terminations ev)"
proof (induction ev arbitrary: A)
  case Nil
  then show ?case by simp
next
  case (Cons e ev)
  then show ?case by (cases e) auto
qed

lemma within_start: "within B A ev \<Longrightarrow> A \<subseteq> B"
  by (cases ev) simp_all

lemma within_append:
  "within B A (xs @ ys) \<longleftrightarrow> within B A xs \<and> within B (foldl track A xs) ys"
  by (induction xs arbitrary: A) (auto dest: within_start)

lemma within_launch_only:
  "terminations ev = [] \<Longrightarrow> A \<union> set (launches ev) \<subseteq> B \<Longrightarrow> within B A ev"
proof (induction ev arbitrary: A)
  case Nil
  then show ?case by simp
next
  case (Cons e ev)
  then show ?case by (cases e) auto
qed

lemma within_no_launch: "launches ev = [] \<Longrightarrow> A \<subseteq> B \<Longrightarrow> within B A ev"
proof (induction ev arbitrary: A)
  case Nil
  then show ?case by simp
next
  case (Cons e ev)
  from Cons.prems have ev: "launches ev = []" and sub: "track A e \<subseteq> B"
    by (cases e; auto)+
  from Cons.IH [OF ev sub] Cons.prems(2) show ?case by simp
qed

lemma paired_append:
  "paired A (xs @ ys) \<longleftrightarrow> paired A xs \<and> paired (foldl track A xs) ys"
proof (induction xs arbitrary: A)
  case Nil
  show ?case by (cases ys) auto
next
  case (Cons x xs)
  then show ?case by simp
qed

lemma within_paired: "within {n, Suc n} A ev \<Longrightarrow> paired A ev"
  by (induction ev arbitrary: A) auto

lemma paired_prefix:
  "paired A ev \<Longrightarrow> prefix pre ev \<Longrightarrow> \<exists>n. foldl track A pre \<subseteq> {n, Suc n}"
proof (induction ev arbitrary: A pre)
  case Nil
  then show ?case by simp
next
  case (Cons e ev)
  show ?case
  proof (cases pre)
    case Nil
    with Cons.prems show ?thesis by simp
  next
    case (Cons x pre')
    with Cons.prems have "x = e" "prefix pre' ev" by simp_all
    with Cons.IH [of "track A e" pre'] Cons.prems(1) Cons show ?thesis by simp
  qed
qed

lemma alive_of_cur: "alive_of s \<subseteq> {cur s}"
  by (simp add: alive_of_def cur_def split: option.splits)

lemma alive_of_first: "p_next s = None \<Longrightarrow> alive_of s = {}"
  by (simp add: alive_of_def)

lemma alive_of_later: "p_next s = Some p \<Longrightarrow> alive_of s = {p}"
  by (simp add: alive_of_def)

lemma alive_after_launches:
  assumes "launches L = (if p_next s = None then [cur s, Suc (cur s)] else [Suc (cur s)])"
  shows "alive_of s \<union> set (launches L) = {cur s, Suc (cur s)}"
  using assms by (auto simp: alive_of_def cur_def split: option.splits)

lemma iteration_live:
  assumes "consistent s" and "iteration a h fsp usr s (r, r') = (ev, s', st)"
  shows "within {cur s, Suc (cur s)} (alive_of s) ev \<and>
         (st = None \<longrightarrow> foldl track (alive_of s) ev = alive_of s') \<and>
         (st = Some (Crash EOFError) \<longrightarrow> foldl track (alive_of s) ev = {cur s, Suc (cur s)})"
  using assms
proof (cases rule: iteration_cases)
  case (crashed e)
  have "alive_of s \<union> set (launches ev) \<subseteq> {cur s, Suc (cur s)}"
    using crashed(7) alive_of_cur [of s] by auto
  with crashed show ?thesis by (simp add: within_launch_only)
next
  case (asked L Q x)
  have u: "alive_of s \<union> set (launches L) = {cur s, Suc (cur s)}"
    by (rule alive_after_launches [OF asked(8)])
  have aL: "foldl track (alive_of s) L = {cur s, Suc (cur s)}"
    unfolding track_launch_only [OF asked(5)] by (rule u)
  have wL: "within {cur s, Suc (cur s)} (alive_of s) L"
    by (rule within_launch_only [OF asked(5) eq_refl [OF u]])
  have wQ: "within {cur s, Suc (cur s)} {cur s, Suc (cur s)} Q"
    using asked(10) by (intro within_no_launch) simp_all
  have aQ: "x = Crash EOFError \<Longrightarrow> foldl track {cur s, Suc (cur s)} Q = {cur s, Suc (cur s)}"
    using asked(10,13) by (simp add: track_no_launch)
  from asked(1,3) aL wL wQ aQ show ?thesis by (simp add: within_append)
next
  case (labelled L Q line)
  let ?B = "{cur s, Suc (cur s)}"
  have u: "alive_of s \<union> set (launches L) = ?B"
    by (rule alive_after_launches [OF labelled(6)])
  have aL: "foldl track (alive_of s) L = ?B"
    unfolding track_launch_only [OF labelled(3)] by (rule u)
  have wL: "within ?B (alive_of s) L"
    by (rule within_launch_only [OF labelled(3) eq_refl [OF u]])
  have wQ: "within ?B ?B Q" using labelled(8) by (intro within_no_launch) simp_all
  have aQ: "foldl track ?B Q = ?B" using labelled(8,10) by (simp add: track_no_launch)
  have wT: "within ?B ?B (teardown h (cur s) @ [Append (cur s) line])"
    by (intro within_no_launch) simp_all
  have aT: "foldl track ?B (teardown h (cur s) @ [Append (cur s) line]) = {Suc (cur s)}"
    by (subst track_no_launch) auto
  have s': "alive_of s' = {Suc (cur s)}" using labelled(13) by (rule alive_of_later)
  from labelled(1,2) aL wL wQ aQ wT aT s' show ?thesis
    by (simp add: within_append)
qed

lemma session_loop_paired:
  "consistent s \<Longrightarrow> session_loop a h fsp usr s ps = (ev, s', st) \<Longrightarrow> paired (alive_of s) ev"
proof (induction ps arbitrary: s ev s' st)
  case Nil
  then show ?case using alive_of_cur [of s] by auto
next
  case (Cons pr ps)
  obtain r r' where pr: "pr = (r, r')" by (cases pr)
  obtain ev1 s1 st1 where it: "iteration a h fsp usr s (r, r') = (ev1, s1, st1)"
    by (metis prod_cases3)
  note live = iteration_live [OF Cons.prems(1) it]
  show ?case
  proof (cases st1)
    case (Some x)
    with Cons.prems(2) it pr have "ev = ev1" by simp
    with within_paired [OF conjunct1 [OF live]] show ?thesis by simp
  next
    case None
    obtain ev2 s2 st2 where sl: "session_loop a h fsp usr s1 ps = (ev2, s2, st2)"
      by (metis prod_cases3)
    from Cons.prems(2) it pr None sl have ev: "ev = ev1 @ ev2" by simp
    from Cons.prems(1) it have c1: "consistent s1"
      using None by (cases rule: iteration_cases) simp_all
    from live None have f: "foldl track (alive_of s) ev1 = alive_of s1" by simp
    from within_paired [OF conjunct1 [OF live]] f Cons.IH [OF c1 sl] ev show ?thesis
      by (simp add: paired_append)
  qed
qed

lemma main_loop:
  assumes "main a h file W ins = (tr, res, st)"
  shows "(tr = [] \<or> tr = [UserUnknown]) \<and> res = file \<and> st \<noteq> Completed \<or>
         (\<exists>fsp usr todo s'. worklist h file W = Inr todo \<and> user a = Some usr \<and>
            session_loop a h fsp usr (initial file ins) (adjacent todo) = (tr, s', st) \<and>
            res = results s')"
  using assms
  by (auto simp: main_def split: sum.splits option.splits prod.splits)

lemma initial_simps [simp]:
  "consistent (initial file ins)" "alive_of (initial file ins) = {}"
  "cur (initial file ins) = 0" "p_next (initial file ins) = None"
  "results (initial file ins) = file" "inputs (initial file ins) = ins"
  by (simp_all add: initial_def consistent_def alive_of_def cur_def)

lemma main_paired:
  assumes "main a h file W ins = (tr, res, st)"
  shows "paired {} tr"
  using main_loop [OF assms]
proof (elim disjE exE conjE)
  fix fsp usr todo s'
  assume "session_loop a h fsp usr (initial file ins) (adjacent todo) = (tr, s', st)"
  from session_loop_paired [OF _ this] show ?thesis by simp
qed auto

text \<open>
  C7. At every instant of every run, that is after every prefix of the events of a run,
  the sessions alive (launched and not yet sent a termination signal) are among two
  consecutive ones, the current session and the prefetched next one; so they are at
  most two.
\<close>

theorem at_most_two_sessions_alive:
  assumes "main a h file W ins = (tr, res, st)" and "prefix pre tr"
  shows "(\<exists>n. live pre \<subseteq> {n, Suc n}) \<and> card (live pre) \<le> 2"
proof -
  from paired_prefix [OF main_paired [OF assms(1)] assms(2)]
  obtain n where n: "live pre \<subseteq> {n, Suc n}" unfolding live_def by blast
  then have "card (live pre) \<le> card {n, Suc n}" by (intro card_mono) simp_all
  with n show ?thesis by auto
qed

theorem at_most_two_sessions_alive_witness:
  "prefix (take 30 (fst (main sample_args sample_host None three_subjects
      (sample_answers @ sample_answers @ sample_answers))))
     (fst (main sample_args sample_host None three_subjects
      (sample_answers @ sample_answers @ sample_answers))) \<and>
   live (take 30 (fst (main sample_args sample_host None three_subjects
      (sample_answers @ sample_answers @ sample_answers)))) = {1, 2} \<and>
   card (live (take 30 (fst (main sample_args sample_host None three_subjects
      (sample_answers @ sample_answers @ sample_answers))))) \<le> 2"
proof -
  let ?m = "main sample_args sample_host None three_subjects
      (sample_answers @ sample_answers @ sample_answers)"
  have m: "?m = (fst ?m, fst (snd ?m), snd (snd ?m))" by simp
  have p: "prefix (take 30 (fst ?m)) (fst ?m)" by (rule take_is_prefix)
  have l: "live (take 30 (fst ?m)) = {1, 2}" by code_simp
  from at_most_two_sessions_alive [OF m p] p l show ?thesis by blast
qed
subsection \<open>Order of events\<close>

lemma precedes_none: "\<forall>e\<in>set ev. \<not> Q e \<Longrightarrow> precedes P Q ev"
  by (auto simp: precedes_def)

lemma precedes_append:
  assumes "precedes P Q xs" and "precedes P Q ys"
  shows "precedes P Q (xs @ ys)"
  unfolding precedes_def
proof (intro allI impI)
  fix i assume i: "i < length (xs @ ys)" and q: "Q ((xs @ ys) ! i)"
  show "\<exists>j<i. P ((xs @ ys) ! j)"
  proof (cases "i < length xs")
    case True
    with q assms(1) obtain j where "j < i" "P (xs ! j)"
      unfolding precedes_def by (auto simp: nth_append)
    with True show ?thesis by (intro exI [of _ j]) (simp add: nth_append)
  next
    case False
    with i have i': "i - length xs < length ys" by simp
    from q False have "Q (ys ! (i - length xs))" by (simp add: nth_append)
    with assms(2) i' obtain j where j: "j < i - length xs" "P (ys ! j)"
      unfolding precedes_def by blast
    with False show ?thesis by (intro exI [of _ "length xs + j"]) (auto simp: nth_append)
  qed
qed

lemma precedes_after:
  assumes "\<exists>e\<in>set xs. P e" and "\<forall>e\<in>set xs. \<not> Q e"
  shows "precedes P Q (xs @ ys)"
  unfolding precedes_def
proof (intro allI impI)
  fix i assume i: "i < length (xs @ ys)" and q: "Q ((xs @ ys) ! i)"
  from assms(1) obtain j where j: "j < length xs" "P (xs ! j)"
    by (auto simp: in_set_conv_nth)
  have "\<not> i < length xs"
  proof
    assume "i < length xs"
    with q assms(2) show False by (auto simp: nth_append)
  qed
  with j show "\<exists>j<i. P ((xs @ ys) ! j)"
    by (intro exI [of _ j]) (simp add: nth_append)
qed

lemma launches_member: "(\<exists>e\<in>set ev. n \<in> set (launch_of e)) \<longleftrightarrow> n \<in> set (launches ev)"
  by (auto simp: launches_def)

lemma asks_member: "(\<exists>e\<in>set ev. n \<in> fst ` set (ask_of e)) \<longleftrightarrow> n \<in> fst ` set (asks ev)"
  by (auto simp: asks_def)

lemma appends_member:
  "(\<exists>e\<in>set ev. n \<in> fst ` set (append_of e)) \<longleftrightarrow> n \<in> fst ` set (appends ev)"
  by (auto simp: appends_def)

lemma no_asks: "n \<notin> fst ` set (asks ev) \<Longrightarrow> \<forall>e\<in>set ev. \<not> n \<in> fst ` set (ask_of e)"
  using asks_member [of ev n] by blast

lemma no_appends:
  "n \<notin> fst ` set (appends ev) \<Longrightarrow> \<forall>e\<in>set ev. \<not> n \<in> fst ` set (append_of e)"
  using appends_member [of ev n] by blast

lemma iteration_order:
  assumes "consistent s" and "iteration a h fsp usr s (r, r') = (ev, s', st)"
  shows "precedes (\<lambda>e. Suc n \<in> set (launch_of e)) (\<lambda>e. n \<in> fst ` set (ask_of e)) ev \<and>
         precedes (\<lambda>e. e = terminate (darwin h) n) (\<lambda>e. n \<in> fst ` set (append_of e)) ev"
  using assms
proof (cases rule: iteration_cases)
  case (crashed e)
  then show ?thesis by (intro conjI precedes_none no_asks no_appends) simp_all
next
  case (asked L Q x)
  have second: "precedes (\<lambda>e. e = terminate (darwin h) n) (\<lambda>e. n \<in> fst ` set (append_of e)) ev"
    using asked(3,7,11) by (intro precedes_none no_appends) simp
  have first: "precedes (\<lambda>e. Suc n \<in> set (launch_of e)) (\<lambda>e. n \<in> fst ` set (ask_of e)) ev"
  proof (cases "n = cur s")
    case True
    have "\<exists>e\<in>set L. Suc n \<in> set (launch_of e)"
      unfolding launches_member using asked(8) True by simp
    moreover have "\<forall>e\<in>set L. \<not> n \<in> fst ` set (ask_of e)"
      using asked(6) by (intro no_asks) simp
    ultimately show ?thesis unfolding asked(3) by (rule precedes_after)
  next
    case False
    with asked(3,6,12) show ?thesis by (intro precedes_none no_asks) auto
  qed
  from first second show ?thesis ..
next
  case (labelled L Q line)
  let ?T = "teardown h (cur s)"
  have first: "precedes (\<lambda>e. Suc n \<in> set (launch_of e)) (\<lambda>e. n \<in> fst ` set (ask_of e)) ev"
  proof (cases "n = cur s")
    case True
    have "\<exists>e\<in>set L. Suc n \<in> set (launch_of e)"
      unfolding launches_member using labelled(6) True by simp
    moreover have "\<forall>e\<in>set L. \<not> n \<in> fst ` set (ask_of e)"
      using labelled(4) by (intro no_asks) simp
    ultimately show ?thesis unfolding labelled(2) by (rule precedes_after)
  next
    case False
    with labelled(2,4,11) show ?thesis by (intro precedes_none no_asks) auto
  qed
  have second: "precedes (\<lambda>e. e = terminate (darwin h) n) (\<lambda>e. n \<in> fst ` set (append_of e)) ev"
  proof (cases "n = cur s")
    case True
    have ev: "ev = (L @ Q @ ?T) @ [Append (cur s) line]" using labelled(2) by simp
    have "\<exists>e\<in>set (L @ Q @ ?T). e = terminate (darwin h) n"
      using terminate_in_teardown [of h "cur s"] True by auto
    moreover have "\<forall>e\<in>set (L @ Q @ ?T). \<not> n \<in> fst ` set (append_of e)"
      using labelled(5,9) by (intro no_appends) simp
    ultimately show ?thesis unfolding ev by (rule precedes_after)
  next
    case False
    with labelled(2,5,9) show ?thesis by (intro precedes_none no_appends) auto
  qed
  from first second show ?thesis ..
qed

lemma session_loop_order:
  "consistent s \<Longrightarrow> session_loop a h fsp usr s ps = (ev, s', st) \<Longrightarrow>
     precedes (\<lambda>e. Suc n \<in> set (launch_of e)) (\<lambda>e. n \<in> fst ` set (ask_of e)) ev \<and>
     precedes (\<lambda>e. e = terminate (darwin h) n) (\<lambda>e. n \<in> fst ` set (append_of e)) ev"
proof (induction ps arbitrary: s ev s' st)
  case Nil
  then show ?case by (simp add: precedes_def)
next
  case (Cons pr ps)
  obtain r r' where pr: "pr = (r, r')" by (cases pr)
  obtain ev1 s1 st1 where it: "iteration a h fsp usr s (r, r') = (ev1, s1, st1)"
    by (metis prod_cases3)
  note ord = iteration_order [OF Cons.prems(1) it, of n]
  show ?case
  proof (cases st1)
    case (Some x)
    with Cons.prems(2) it pr have "ev = ev1" by simp
    with ord show ?thesis by simp
  next
    case None
    obtain ev2 s2 st2 where sl: "session_loop a h fsp usr s1 ps = (ev2, s2, st2)"
      by (metis prod_cases3)
    from Cons.prems(2) it pr None sl have ev: "ev = ev1 @ ev2" by simp
    from Cons.prems(1) it have c1: "consistent s1"
      using None by (cases rule: iteration_cases) simp_all
    from Cons.IH [OF c1 sl] ord show ?thesis
      unfolding ev by (blast intro: precedes_append)
  qed
qed

lemma extended_append: "extended file (xs @ ys) = extended (extended file xs) ys"
  by (simp add: extended_def)

lemma extended_none: "appends ev = [] \<Longrightarrow> extended file ev = file"
  by (simp add: extended_def)

lemma upt_cons_shift: "n # [Suc n..<Suc (n + m)] = [n..<Suc (n + m)]"
  by (simp add: upt_conv_Cons del: upt_Suc)

lemma session_loop_records:
  "consistent s \<Longrightarrow> session_loop a h fsp usr s ps = (ev, s', st) \<Longrightarrow>
     map fst (appends ev) = [cur s..<cur s + length (appends ev)] \<and>
     results s' = extended (results s) ev \<and>
     (st = Completed \<longrightarrow> length (appends ev) = length ps) \<and>
     (\<forall>x\<in>set (asks ev). cur s \<le> fst x \<and>
        (fst x < cur s + length (appends ev) \<or>
         fst x = cur s + length (appends ev) \<and> st \<noteq> Completed))"
proof (induction ps arbitrary: s ev s' st)
  case Nil
  then show ?case by (simp add: extended_def)
next
  case (Cons pr ps)
  obtain r r' where pr: "pr = (r, r')" by (cases pr)
  obtain ev1 s1 st1 where it: "iteration a h fsp usr s (r, r') = (ev1, s1, st1)"
    by (metis prod_cases3)
  from Cons.prems(1) it show ?case
  proof (cases rule: iteration_cases)
    case (crashed e)
    with Cons.prems(2) it pr have "ev = ev1" "s' = s" "st = Crash e" by simp_all
    with crashed show ?thesis by (simp add: extended_none)
  next
    case (asked L Q x)
    with Cons.prems(2) it pr have "ev = L @ Q" "s' = s1" "st = x" by simp_all
    with asked show ?thesis by (auto simp: extended_none)
  next
    case (labelled L Q line)
    obtain ev2 s2 st2 where sl: "session_loop a h fsp usr s1 ps = (ev2, s2, st2)"
      by (metis prod_cases3)
    from Cons.prems(2) it pr labelled(1) sl
    have ev: "ev = ev1 @ ev2" and fin: "s' = s2" "st = st2" by simp_all
    note ih = Cons.IH [OF labelled(12) sl, unfolded labelled(14)]
    have a1: "appends ev1 = [(cur s, line)]" and k1: "\<forall>x\<in>set (asks ev1). fst x = cur s"
      using labelled(2,4,5,9,11) by auto
    have e1: "extended (results s) ev1 = results s1"
      using a1 labelled(15) by (simp add: extended_def)
    have m2: "map fst (appends ev2) = [Suc (cur s)..<Suc (cur s + length (appends ev2))]"
      using ih by (simp del: upt_Suc)
    have hd_eq: "map fst (appends ev) = cur s # map fst (appends ev2)"
      and l: "length (appends ev) = Suc (length (appends ev2))"
      using a1 unfolding ev by simp_all
    have num: "map fst (appends ev) = [cur s..<cur s + length (appends ev)]"
      unfolding l add_Suc_right hd_eq m2 by (rule upt_cons_shift)
    have res: "results s' = extended (results s) ev"
      using ih e1 unfolding ev fin by (simp add: extended_append)
    have len: "st = Completed \<longrightarrow> length (appends ev) = length (pr # ps)"
      using ih a1 unfolding ev fin by simp
    have ask: "\<forall>x\<in>set (asks ev). cur s \<le> fst x \<and>
        (fst x < cur s + length (appends ev) \<or>
         fst x = cur s + length (appends ev) \<and> st \<noteq> Completed)"
    proof
      fix x assume "x \<in> set (asks ev)"
      then consider "x \<in> set (asks ev1)" | "x \<in> set (asks ev2)" unfolding ev by auto
      then show "cur s \<le> fst x \<and>
        (fst x < cur s + length (appends ev) \<or>
         fst x = cur s + length (appends ev) \<and> st \<noteq> Completed)"
      proof cases
        case 1
        with k1 a1 show ?thesis unfolding ev by simp
      next
        case 2
        with ih a1 show ?thesis unfolding ev fin by auto
      qed
    qed
    from num res len ask show ?thesis by blast
  qed
qed

lemma adjacent_length: "length (adjacent todo) = length todo - 1"
  by (simp add: adjacent_def)

subsection \<open>Sessions and rows\<close>

lemma shown_simps [simp]:
  "shown [] = []" "shown (e # es) = shown_of e @ shown es"
  "shown (xs @ ys) = shown xs @ shown ys"
  by (simp_all add: shown_def)

lemma shown_none: "launches ev = [] \<Longrightarrow> shown ev = []"
proof (induction ev)
  case Nil
  then show ?case by simp
next
  case (Cons e ev)
  then show ?case by (cases e) simp_all
qed

lemma shown_zip: "shown ev = zip (launches ev) (launched_subjects ev)"
proof (induction ev)
  case Nil
  then show ?case by simp
next
  case (Cons e ev)
  then show ?case by (cases e) simp_all
qed

lemma shown_member: "Launch n subj seg1 seg2 \<in> set ev \<Longrightarrow> (n, subj) \<in> set (shown ev)"
  by (force simp: shown_def)

lemma drop_Cons_nth:
  assumes "drop c xs = y # ys"
  shows "c < length xs \<and> y = xs ! c \<and> ys = drop (Suc c) xs"
proof -
  from assms have c: "c < length xs" by (cases "c < length xs") simp_all
  from Cons_nth_drop_Suc [OF c] assms show ?thesis using c by simp
qed

lemma adjacent_nth:
  assumes "c < length (adjacent todo)"
  shows "adjacent todo ! c = (todo ! c, todo ! Suc c) \<and> Suc c < length todo"
proof -
  from assms have c: "c < length todo - 1" by (simp add: adjacent_def)
  then have "butlast todo ! c = todo ! c" "tl todo ! c = todo ! Suc c"
    by (simp_all add: nth_butlast nth_tl)
  with c show ?thesis by (simp add: adjacent_def)
qed

lemma iteration_rows:
  assumes "consistent s" and "iteration a h fsp usr s (r, r') = (ev, s', st)"
  shows "(\<forall>x\<in>set (shown ev). x = (cur s, subject_id r) \<or> x = (Suc (cur s), subject_id r')) \<and>
         (\<forall>x\<in>set (asks ev). fst x = cur s) \<and>
         (\<forall>x\<in>set (appends ev). fst x = cur s \<and>
            (\<exists>ms ans t. snd x = written_line r ms ans usr t))"
  using assms
proof (cases rule: iteration_cases)
  case (crashed e)
  from crashed(7) have "shown ev = [] \<or> shown ev = [(cur s, subject_id r)]"
    unfolding shown_zip by auto
  with crashed(5,6) show ?thesis by auto
next
  case (asked L Q x)
  have "shown ev = zip (launches L) (launched_subjects L)"
    unfolding asked(3) by (simp add: shown_none [OF asked(10)] shown_zip [of L])
  with asked(8,9) have "\<forall>x\<in>set (shown ev).
      x = (cur s, subject_id r) \<or> x = (Suc (cur s), subject_id r')"
    by (cases "p_next s = None") simp_all
  with asked(3,6,7,11,12) show ?thesis by auto
next
  case (labelled L Q line)
  have "shown ev = zip (launches L) (launched_subjects L)"
    unfolding labelled(2) using labelled(8) by (simp add: shown_none shown_zip [of L])
  with labelled(6,7) have sh: "\<forall>x\<in>set (shown ev).
      x = (cur s, subject_id r) \<or> x = (Suc (cur s), subject_id r')"
    by (cases "p_next s = None") simp_all
  have ap: "appends ev = [(cur s, line)]" unfolding labelled(2) using labelled(5,9) by simp
  have ak: "\<forall>x\<in>set (asks ev). fst x = cur s"
    unfolding labelled(2) using labelled(4,11) by simp
  from sh ap ak labelled(17) show ?thesis by simp
qed

lemma session_loop_rows:
  "consistent s \<Longrightarrow> ps = drop (cur s) (adjacent todo)
    \<Longrightarrow> session_loop a h fsp usr s ps = (ev, s', st)
    \<Longrightarrow> (\<forall>x\<in>set (shown ev). fst x < length todo \<and> snd x = subject_id (todo ! fst x)) \<and>
        (\<forall>x\<in>set (asks ev). Suc (fst x) < length todo) \<and>
        (\<forall>x\<in>set (appends ev). Suc (fst x) < length todo \<and>
           (\<exists>ms ans t. snd x = written_line (todo ! fst x) ms ans usr t))"
proof (induction ps arbitrary: s ev s' st)
  case Nil
  then show ?case by simp
next
  case (Cons pr ps)
  from drop_Cons_nth [OF Cons.prems(2) [symmetric]]
  have c: "cur s < length (adjacent todo)" and pr: "pr = adjacent todo ! cur s"
    and ps: "ps = drop (Suc (cur s)) (adjacent todo)" by simp_all
  from adjacent_nth [OF c] pr have pr': "pr = (todo ! cur s, todo ! Suc (cur s))"
    and len: "Suc (cur s) < length todo" by simp_all
  obtain ev1 s1 st1
    where it: "iteration a h fsp usr s (todo ! cur s, todo ! Suc (cur s)) = (ev1, s1, st1)"
    by (metis prod_cases3)
  from iteration_rows [OF Cons.prems(1) it] len
  have rows1: "(\<forall>x\<in>set (shown ev1). fst x < length todo \<and> snd x = subject_id (todo ! fst x)) \<and>
        (\<forall>x\<in>set (asks ev1). Suc (fst x) < length todo) \<and>
        (\<forall>x\<in>set (appends ev1). Suc (fst x) < length todo \<and>
           (\<exists>ms ans t. snd x = written_line (todo ! fst x) ms ans usr t))"
    by auto
  show ?case
  proof (cases st1)
    case (Some x)
    with Cons.prems(3) it pr' have "ev = ev1" by simp
    with rows1 show ?thesis by simp
  next
    case None
    obtain ev2 s2 st2 where sl: "session_loop a h fsp usr s1 ps = (ev2, s2, st2)"
      by (metis prod_cases3)
    from Cons.prems(3) it pr' None sl have ev: "ev = ev1 @ ev2" by simp
    from Cons.prems(1) it have c1: "consistent s1" "cur s1 = Suc (cur s)"
      using None by (cases rule: iteration_cases; simp)+
    from Cons.IH [OF c1(1) ps [folded c1(2)] sl] rows1 show ?thesis
      unfolding ev by auto
  qed
qed

lemma foldl_append_line:
  "foldl append_line start ls =
     (if ls = [] then start else Some ((case start of None \<Rightarrow> [] | Some old \<Rightarrow> old) @ ls))"
proof (induction ls arbitrary: start)
  case Nil
  then show ?case by simp
next
  case (Cons l ls)
  show ?case unfolding foldl_Cons Cons.IH
    by (simp add: append_line_def split: option.splits)
qed

lemma extended_explicit:
  "extended file tr =
     (if appends tr = [] then file
      else Some ((case file of None \<Rightarrow> [] | Some old \<Rightarrow> old) @ map snd (appends tr)))"
  unfolding extended_def foldl_append_line by simp

text \<open>
  C6. In every run, with the sessions numbered by launch and the rows of the table the
  loop runs over numbered from 0: session \<open>n\<close> shows the subject of row \<open>n\<close>, the
  questions asked while session \<open>n\<close> is current are those about row \<open>n\<close>, and a record
  written for session \<open>n\<close> is the record of row \<open>n\<close>. A question about row \<open>n\<close> is only
  asked when row \<open>n + 1\<close> exists and after its session has been launched; the record of
  row \<open>n\<close> is only written after session \<open>n\<close> has been sent its termination signal. The
  records written are those of the sessions \<open>0, 1, \<dots>, m - 1\<close>, one each and in this
  order, and the results file at the end holds the lines it held at the start followed
  by exactly these records. Every session asked about is one of these or, if the program
  did not complete, the one in progress when it ended; and a run that completes has
  written one record per pass of the loop.
\<close>

theorem session_order:
  assumes "main a h file W ins = (tr, res, st)"
  shows "(\<forall>i n k. i < length tr \<and> tr ! i = Ask n k \<longrightarrow>
            (\<exists>j<i. \<exists>subj seg1 seg2. tr ! j = Launch (Suc n) subj seg1 seg2)) \<and>
         (\<forall>i n line. i < length tr \<and> tr ! i = Append n line \<longrightarrow>
            (\<exists>j<i. tr ! j = terminate (darwin h) n)) \<and>
         map fst (appends tr) = [0..<length (appends tr)] \<and>
         res = (if appends tr = [] then file
                else Some ((case file of None \<Rightarrow> [] | Some old \<Rightarrow> old) @ map snd (appends tr))) \<and>
         (\<forall>n k. Ask n k \<in> set tr \<longrightarrow>
            n < length (appends tr) \<or> n = length (appends tr) \<and> st \<noteq> Completed) \<and>
         (st = Completed \<longrightarrow>
            (\<exists>todo. worklist h file W = Inr todo \<and> length (appends tr) = length todo - 1)) \<and>
         (\<forall>todo. worklist h file W = Inr todo \<longrightarrow>
            (\<forall>n subj seg1 seg2. Launch n subj seg1 seg2 \<in> set tr \<longrightarrow>
               n < length todo \<and> subj = subject_id (todo ! n)) \<and>
            (\<forall>n k. Ask n k \<in> set tr \<longrightarrow> Suc n < length todo) \<and>
            (\<forall>n line. Append n line \<in> set tr \<longrightarrow>
               Suc n < length todo \<and>
               (\<exists>ms ans usr t. user a = Some usr \<and> line = written_line (todo ! n) ms ans usr t)))"
proof -
  have ord: "precedes (\<lambda>e. Suc n \<in> set (launch_of e)) (\<lambda>e. n \<in> fst ` set (ask_of e)) tr \<and>
     precedes (\<lambda>e. e = terminate (darwin h) n) (\<lambda>e. n \<in> fst ` set (append_of e)) tr"
    and rec: "map fst (appends tr) = [0..<length (appends tr)] \<and> res = extended file tr \<and>
     (st = Completed \<longrightarrow>
        (\<exists>todo. worklist h file W = Inr todo \<and> length (appends tr) = length todo - 1)) \<and>
     (\<forall>x\<in>set (asks tr).
        fst x < length (appends tr) \<or> fst x = length (appends tr) \<and> st \<noteq> Completed)"
    and rows: "\<forall>todo. worklist h file W = Inr todo \<longrightarrow>
       (\<forall>x\<in>set (shown tr). fst x < length todo \<and> snd x = subject_id (todo ! fst x)) \<and>
       (\<forall>x\<in>set (asks tr). Suc (fst x) < length todo) \<and>
       (\<forall>x\<in>set (appends tr). Suc (fst x) < length todo \<and>
          (\<exists>ms ans usr t. user a = Some usr \<and> snd x = written_line (todo ! fst x) ms ans usr t))"
    for n
    using main_loop [OF assms]
  proof (atomize (full), elim disjE exE conjE, goal_cases)
    case 1
    then show ?case by (simp add: precedes_def extended_def)
  next
    case 2
    then show ?case by (simp add: precedes_def extended_def)
  next
    case (3 fsp usr todo s')
    have "(\<forall>x\<in>set (shown tr). fst x < length todo \<and> snd x = subject_id (todo ! fst x)) \<and>
        (\<forall>x\<in>set (asks tr). Suc (fst x) < length todo) \<and>
        (\<forall>x\<in>set (appends tr). Suc (fst x) < length todo \<and>
           (\<exists>ms ans t. snd x = written_line (todo ! fst x) ms ans usr t))"
      by (rule session_loop_rows [OF _ _ 3(3)]) simp_all
    with 3(2) have r: "(\<forall>x\<in>set (shown tr). fst x < length todo \<and> snd x = subject_id (todo ! fst x)) \<and>
        (\<forall>x\<in>set (asks tr). Suc (fst x) < length todo) \<and>
        (\<forall>x\<in>set (appends tr). Suc (fst x) < length todo \<and>
           (\<exists>ms ans usr t. user a = Some usr \<and> snd x = written_line (todo ! fst x) ms ans usr t))"
      by blast
    from session_loop_order [OF _ 3(3), of n] session_loop_records [OF _ 3(3)] 3(1,4) r
    show ?case by (simp add: adjacent_length)
  qed
  have a: "\<exists>j<i. \<exists>subj seg1 seg2. tr ! j = Launch (Suc n) subj seg1 seg2"
    if "i < length tr" "tr ! i = Ask n k" for i n k
  proof -
    from ord [of n] that obtain j where "j < i" "Suc n \<in> set (launch_of (tr ! j))"
      unfolding precedes_def by force
    then show ?thesis by (cases "tr ! j") auto
  qed
  have b: "\<exists>j<i. tr ! j = terminate (darwin h) n"
    if "i < length tr" "tr ! i = Append n line" for i n line
    using ord [of n] that unfolding precedes_def by force
  have c: "n < length (appends tr) \<or> n = length (appends tr) \<and> st \<noteq> Completed"
    if "Ask n k \<in> set tr" for n k
  proof -
    from that have "(n, k) \<in> set (asks tr)" by (force simp: asks_def)
    with rec show ?thesis by force
  qed
  have d: "res = (if appends tr = [] then file
                else Some ((case file of None \<Rightarrow> [] | Some old \<Rightarrow> old) @ map snd (appends tr)))"
    using rec unfolding extended_explicit by blast
  have g: "(\<forall>n subj seg1 seg2. Launch n subj seg1 seg2 \<in> set tr \<longrightarrow>
               n < length todo \<and> subj = subject_id (todo ! n)) \<and>
            (\<forall>n k. Ask n k \<in> set tr \<longrightarrow> Suc n < length todo) \<and>
            (\<forall>n line. Append n line \<in> set tr \<longrightarrow>
               Suc n < length todo \<and>
               (\<exists>ms ans usr t. user a = Some usr \<and> line = written_line (todo ! n) ms ans usr t))"
    if w: "worklist h file W = Inr todo" for todo
  proof (intro conjI allI impI)
    fix n subj seg1 seg2 assume "Launch n subj seg1 seg2 \<in> set tr"
    then have "(n, subj) \<in> set (shown tr)" by (rule shown_member)
    with rows w show "n < length todo" "subj = subject_id (todo ! n)" by force+
  next
    fix n k assume "Ask n k \<in> set tr"
    then have "(n, k) \<in> set (asks tr)" by (force simp: asks_def)
    with rows w show "Suc n < length todo" by force
  next
    fix n line assume "Append n line \<in> set tr"
    then have "(n, line) \<in> set (appends tr)" by (force simp: appends_def)
    with rows w show "Suc n < length todo"
      "\<exists>ms ans usr t. user a = Some usr \<and> line = written_line (todo ! n) ms ans usr t"
      by force+
  qed
  from a b c d g rec show ?thesis by blast
qed

theorem session_order_witness:
  "fst sample_run ! 18 = Ask 0 1 \<and>
   (\<exists>j<18. \<exists>subj seg1 seg2. fst sample_run ! j = Launch (Suc 0) subj seg1 seg2) \<and>
   fst sample_run ! 25 = Append 0 (''S1,A,B,A,certain,2,None,a;b,ann,7.25,12'' @ [CHR 0x0A]) \<and>
   (\<exists>j<25. fst sample_run ! j = terminate (darwin sample_host) 0) \<and>
   map fst (appends (fst sample_run)) = [0..<length (appends (fst sample_run))] \<and>
   fst (snd sample_run) =
     Some [''S1,A,B,A,certain,2,None,a;b,ann,7.25,12'' @ [CHR 0x0A],
           ''S2,B,A,B,certain,2,None,a;b,ann,7.25,12'' @ [CHR 0x0A]] \<and>
   length (appends (fst sample_run)) = 2 \<and> snd (snd sample_run) = Completed \<and>
   fst sample_run ! 3 = Launch 1 ''sub-S2'' ''/data/S2/B.mgz'' ''/data/S2/A.mgz'' \<and>
   ''sub-S2'' = subject_id (three_subjects ! 1) \<and>
   (\<exists>ms ans usr t. user sample_args = Some usr \<and>
      ''S1,A,B,A,certain,2,None,a;b,ann,7.25,12'' @ [CHR 0x0A] =
        written_line (three_subjects ! 0) ms ans usr t)"
proof -
  let ?l1 = "''S1,A,B,A,certain,2,None,a;b,ann,7.25,12'' @ [CHR 0x0A]"
  let ?l2 = "''S2,B,A,B,certain,2,None,a;b,ann,7.25,12'' @ [CHR 0x0A]"
  have m: "main sample_args sample_host None three_subjects
      (sample_answers @ sample_answers @ sample_answers) =
      (fst sample_run, fst (snd sample_run), snd (snd sample_run))"
    by (simp add: sample_run_def)
  have e: "18 < length (fst sample_run)" "fst sample_run ! 18 = Ask 0 1"
    "25 < length (fst sample_run)" "fst sample_run ! 25 = Append 0 ?l1"
    "length (appends (fst sample_run)) = 2" "snd (snd sample_run) = Completed"
    "3 < length (fst sample_run)"
    "fst sample_run ! 3 = Launch 1 ''sub-S2'' ''/data/S2/B.mgz'' ''/data/S2/A.mgz''"
    "map snd (appends (fst sample_run)) = [?l1, ?l2]"
    by code_simp+
  have w: "worklist sample_host None three_subjects = Inr three_subjects"
    by (simp add: worklist_def)
  note t = session_order [OF m]
  from t have a: "\<forall>i n k. i < length (fst sample_run) \<and> fst sample_run ! i = Ask n k \<longrightarrow>
      (\<exists>j<i. \<exists>subj seg1 seg2. fst sample_run ! j = Launch (Suc n) subj seg1 seg2)"
    and b: "\<forall>i n line. i < length (fst sample_run) \<and> fst sample_run ! i = Append n line \<longrightarrow>
      (\<exists>j<i. fst sample_run ! j = terminate (darwin sample_host) n)"
    and c: "map fst (appends (fst sample_run)) = [0..<length (appends (fst sample_run))]"
    and d: "fst (snd sample_run) =
      (if appends (fst sample_run) = [] then None
       else Some ((case None of None \<Rightarrow> [] | Some old \<Rightarrow> old) @ map snd (appends (fst sample_run))))"
    and g: "\<forall>todo. worklist sample_host None three_subjects = Inr todo \<longrightarrow>
      (\<forall>n subj seg1 seg2. Launch n subj seg1 seg2 \<in> set (fst sample_run) \<longrightarrow>
         n < length todo \<and> subj = subject_id (todo ! n)) \<and>
      (\<forall>n k. Ask n k \<in> set (fst sample_run) \<longrightarrow> Suc n < length todo) \<and>
      (\<forall>n line. Append n line \<in> set (fst sample_run) \<longrightarrow>
         Suc n < length todo \<and>
         (\<exists>ms ans usr t. user sample_args = Some usr \<and>
            line = written_line (todo ! n) ms ans usr t))"
    by blast+
  from a e(1,2) have a': "\<exists>j<18. \<exists>subj seg1 seg2. fst sample_run ! j = Launch (Suc 0) subj seg1 seg2"
    by blast
  from b e(3,4) have b': "\<exists>j<25. fst sample_run ! j = terminate (darwin sample_host) 0"
    by blast
  from e(5) have ne: "appends (fst sample_run) \<noteq> []" by auto
  from d ne e(9) have d': "fst (snd sample_run) = Some [?l1, ?l2]" by simp
  from e(7,8) have "Launch 1 ''sub-S2'' ''/data/S2/B.mgz'' ''/data/S2/A.mgz'' \<in> set (fst sample_run)"
    by (metis nth_mem)
  with g w have s: "''sub-S2'' = subject_id (three_subjects ! 1)" by blast
  from e(3,4) have "Append 0 ?l1 \<in> set (fst sample_run)" by (metis nth_mem)
  with g w have r: "\<exists>ms ans usr t. user sample_args = Some usr \<and>
      ?l1 = written_line (three_subjects ! 0) ms ans usr t" by blast
  from e(2) a' e(4) b' c d' e(5,6) e(8) s r show ?thesis by blast
qed

subsection \<open>Resuming\<close>

lemma worklist_rows:
  assumes "worklist h file W = Inr todo"
  shows "file = None \<and> todo = W \<or>
         (\<exists>lines vals. file = Some lines \<and> first_column h lines = Inr vals \<and>
            todo = filter (\<lambda>r. ID r \<notin> set vals) W)"
  using assms
  by (auto simp: worklist_def remove_labeled_def split: option.splits sum.splits)

lemma resume_with_text_identifiers:
  "map_sum id (map subject_id) resumed_subjects = Inr [''sub-S2'', ''sub-S3'']"
  by code_simp

text \<open>
  C2. The claim: a run with a results file present never processes a subject whose
  identifier is in the first column of that file. The rows removed are those whose \<open>ID\<close>
  equals a value read from the first column (\<open>worklist_rows\<close>), and the two columns are
  typed independently. With the identifiers \<open>S1\<close>, \<open>S2\<close>, \<open>S3\<close> both are texts and the
  labelled row is removed (\<open>resume_with_text_identifiers\<close>). In a table with the
  identifiers 1, 2 and S3 they are texts as well. The first session labels subject 1 and
  leaves one record, which begins with 1. In the second session the first column of
  that file is all integers and is read as the integer 1, which equals no text: nothing
  is removed, subject 1 is shown and asked about again, and the results file then holds
  two records of subject 1.
\<close>

theorem relabelled_after_resume:
  "map ID numbered_subjects = infer_column [''1'', ''2'', ''S3''] \<and>
   map ID numbered_subjects = [Text ''1'', Text ''2'', Text ''S3''] \<and>
   fst (snd first_session) = Some [''1,A,B,A,certain,2,None,a;b,ann,7.25,12'' @ [CHR 0x0A]] \<and>
   first_column sample_host [''1,A,B,A,certain,2,None,a;b,ann,7.25,12'' @ [CHR 0x0A]] =
     Inr [Number 1] \<and>
   map_sum id (map subject_id) (worklist sample_host (fst (snd first_session)) numbered_subjects) =
     Inr [''sub-1'', ''sub-2'', ''sub-S3''] \<and>
   launched_subjects (fst second_session) = [''sub-1'', ''sub-2'', ''sub-S3''] \<and>
   asks (fst second_session) = [(0, 1), (0, 2), (0, 3), (0, 4), (0, 5), (1, 1)] \<and>
   map_option (map parse_line) (fst (snd second_session)) =
     Some [[''1'', ''A'', ''B'', ''A'', ''certain'', ''2'', ''None'', ''a;b'', ''ann'', ''7.25'', ''12''],
           [''1'', ''A'', ''B'', ''A'', ''certain'', ''2'', ''None'', ''a;b'', ''ann'', ''7.25'', ''12'']]"
  by code_simp

subsection \<open>Stopping\<close>

lemma iteration_more_input:
  assumes "consistent s" and "iteration a h fsp usr s (r, r') = (ev, s', None)"
  shows "iteration a h fsp usr (s\<lparr>inputs := inputs s @ xs\<rparr>) (r, r') =
         (ev, s'\<lparr>inputs := inputs s' @ xs\<rparr>, None)"
proof -
  obtain ev1 res where w: "windows a h fsp s r r' = (ev1, res)" by force
  show ?thesis
  proof (cases res)
    case (Inl e)
    with assms(2) w show ?thesis by (simp add: iteration_def)
  next
    case (Inr quad)
    obtain p pn ms s1 where quad: "quad = (p, pn, ms, s1)" by (cases quad)
    from windows_cases [OF assms(1) w] Inr quad have i1: "inputs s1 = inputs s" by simp
    obtain ev2 out where q: "question_loop (darwin h) [p, pn] ms (inputs s) = (ev2, out)"
      by force
    show ?thesis
    proof (cases out)
      case (Answered ans rest)
      from extends_more [OF extends_question_loop q [unfolded Answered], of xs]
      have q': "question_loop (darwin h) [p, pn] ms (inputs s @ xs) = (ev2, Answered ans (rest @ xs))" .
      from assms(2) w Inr quad q Answered i1 q' show ?thesis
        by (auto simp: iteration_def windows_inputs Let_def)
    next
      case Stopped
      with assms(2) w Inr quad q i1 show ?thesis by (simp add: iteration_def)
    next
      case (Failed e)
      with assms(2) w Inr quad q i1 show ?thesis by (simp add: iteration_def)
    qed
  qed
qed

lemma iteration_stop:
  assumes "consistent s" and "iteration a h fsp usr s (r, r') = (ev, s', Some (Crash EOFError))"
    and "is_stop tok"
  shows "\<exists>s''. iteration a h fsp usr (s\<lparr>inputs := inputs s @ tok # post\<rparr>) (r, r') =
           (ev @ stop_labeling (darwin h) [cur s, Suc (cur s)], s'', Some (Exit 0)) \<and>
         results s'' = results s'"
proof -
  obtain ev1 res where w: "windows a h fsp s r r' = (ev1, res)" by force
  note wc = windows_cases [OF assms(1) w]
  show ?thesis
  proof (cases res)
    case (Inl e)
    with wc have "e \<noteq> EOFError" by simp
    with assms(2) w Inl show ?thesis by (simp add: iteration_def)
  next
    case (Inr quad)
    obtain p pn ms s1 where quad: "quad = (p, pn, ms, s1)" by (cases quad)
    from wc Inr quad have i1: "inputs s1 = inputs s" and p: "p = cur s" "pn = Suc (cur s)"
      by simp_all
    obtain ev2 out where q: "question_loop (darwin h) [p, pn] ms (inputs s) = (ev2, out)"
      by force
    show ?thesis
    proof (cases out)
      case (Answered ans rest)
      with assms(2) w Inr quad q i1 show ?thesis by (simp add: iteration_def Let_def)
    next
      case Stopped
      with assms(2) w Inr quad q i1 show ?thesis by (simp add: iteration_def)
    next
      case (Failed e)
      with assms(2) w Inr quad q i1 have e: "e = EOFError" and ev: "ev = ev1 @ reveal h p @ ev2"
        and s': "s' = s1"
        by (simp_all add: iteration_def)
      from extends_stop [OF extends_question_loop q [unfolded Failed e] assms(3), of post]
      have q': "question_loop (darwin h) [p, pn] ms (inputs s @ tok # post) =
          (ev2 @ stop_labeling (darwin h) [p, pn], Stopped)" by simp
      from w Inr quad q' ev s' p show ?thesis
        by (simp add: iteration_def windows_inputs)
    qed
  qed
qed

lemma session_loop_stop:
  "consistent s \<Longrightarrow> session_loop a h fsp usr s ps = (ev, s', Crash EOFError) \<Longrightarrow> is_stop tok
    \<Longrightarrow> \<exists>n k s''.
          session_loop a h fsp usr (s\<lparr>inputs := inputs s @ tok # post\<rparr>) ps =
            (ev @ stop_labeling (darwin h) [n, Suc n], s'', Exit 0) \<and>
          results s'' = results s' \<and> ev \<noteq> [] \<and> last ev = Ask n k \<and> 1 \<le> k \<and> k \<le> 5 \<and>
          foldl track (alive_of s) ev = {n, Suc n} \<and>
          (\<forall>x\<in>set (appends ev). fst x < n) \<and> cur s \<le> n"
proof (induction ps arbitrary: s ev s')
  case Nil
  then show ?case by simp
next
  case (Cons pr ps)
  obtain r r' where pr: "pr = (r, r')" by (cases pr)
  obtain ev1 s1 st1 where it: "iteration a h fsp usr s (r, r') = (ev1, s1, st1)"
    by (metis prod_cases3)
  note live = iteration_live [OF Cons.prems(1) it]
  from Cons.prems(1) it show ?case
  proof (cases rule: iteration_cases)
    case (crashed e)
    with Cons.prems(2) it pr show ?thesis by simp
  next
    case (asked L Q x)
    with Cons.prems(2) it pr have ev: "ev = ev1" and fin: "s' = s1" and x: "x = Crash EOFError"
      by simp_all
    from asked(14) x obtain k where Q: "Q \<noteq> []" "last Q = Ask (cur s) k" "1 \<le> k" "k \<le> 5"
      by blast
    from iteration_stop [OF Cons.prems(1) it [unfolded asked(1) x] Cons.prems(3), of post]
    obtain s'' where it': "iteration a h fsp usr (s\<lparr>inputs := inputs s @ tok # post\<rparr>) (r, r') =
        (ev1 @ stop_labeling (darwin h) [cur s, Suc (cur s)], s'', Some (Exit 0))"
      and r'': "results s'' = results s1" by blast
    have run: "session_loop a h fsp usr (s\<lparr>inputs := inputs s @ tok # post\<rparr>) (pr # ps) =
        (ev @ stop_labeling (darwin h) [cur s, Suc (cur s)], s'', Exit 0)"
      unfolding pr ev using it' by simp
    have l: "ev \<noteq> []" "last ev = Ask (cur s) k" unfolding ev asked(3) using Q by simp_all
    have t: "foldl track (alive_of s) ev = {cur s, Suc (cur s)}"
      unfolding ev using live asked(1) x by simp
    have ap: "\<forall>x\<in>set (appends ev). fst x < cur s"
      unfolding ev asked(3) using asked(7,11) by simp
    from run r'' l Q(3,4) t ap show ?thesis unfolding fin by blast
  next
    case (labelled L Q line)
    obtain ev2 s2 st2 where sl: "session_loop a h fsp usr s1 ps = (ev2, s2, st2)"
      by (metis prod_cases3)
    from Cons.prems(2) it pr labelled(1) sl
    have ev: "ev = ev1 @ ev2" and fin: "s2 = s'" "st2 = Crash EOFError" by simp_all
    from Cons.IH [OF labelled(12) sl [unfolded fin] Cons.prems(3)]
    obtain n k s'' where
      run2: "session_loop a h fsp usr (s1\<lparr>inputs := inputs s1 @ tok # post\<rparr>) ps =
              (ev2 @ stop_labeling (darwin h) [n, Suc n], s'', Exit 0)"
      and rest: "results s'' = results s'" "ev2 \<noteq> []" "last ev2 = Ask n k" "1 \<le> k" "k \<le> 5"
        "foldl track (alive_of s1) ev2 = {n, Suc n}" "\<forall>x\<in>set (appends ev2). fst x < n"
        "cur s1 \<le> n"
      by blast
    from iteration_more_input [OF Cons.prems(1) it [unfolded labelled(1)], of "tok # post"]
    have it': "iteration a h fsp usr (s\<lparr>inputs := inputs s @ tok # post\<rparr>) (r, r') =
        (ev1, s1\<lparr>inputs := inputs s1 @ tok # post\<rparr>, None)" .
    have run: "session_loop a h fsp usr (s\<lparr>inputs := inputs s @ tok # post\<rparr>) (pr # ps) =
        (ev @ stop_labeling (darwin h) [n, Suc n], s'', Exit 0)"
      unfolding pr ev using it' run2 by simp
    have a1: "appends ev1 = [(cur s, line)]" using labelled(2,5,9) by simp
    have l: "ev \<noteq> []" "last ev = Ask n k" unfolding ev using rest(2,3) by simp_all
    have t: "foldl track (alive_of s) ev = {n, Suc n}"
      unfolding ev using live labelled(1) rest(6) by simp
    have ap: "\<forall>x\<in>set (appends ev). fst x < n"
      unfolding ev using a1 rest(7,8) labelled(14) by auto
    have c: "cur s \<le> n" using rest(8) labelled(14) by simp
    from run rest(1) l rest(4,5) t ap c show ?thesis by blast
  qed
qed

lemma main_eof:
  assumes "main a h file W ins = (tr, res, Crash EOFError)"
  shows "\<exists>fsp usr todo s'. resolve_freesurfer_path a h = Inr fsp \<and> user a = Some usr \<and>
           worklist h file W = Inr todo \<and>
           session_loop a h fsp usr (initial file ins) (adjacent todo) = (tr, s', Crash EOFError) \<and>
           res = results s'"
  using assms
  by (auto simp: main_def resolve_freesurfer_path_def worklist_def
      split: sum.splits option.splits prod.splits if_splits)

lemma initial_more_input:
  "initial file (ins @ xs) = (initial file ins)\<lparr>inputs := inputs (initial file ins) @ xs\<rparr>"
  by (simp add: initial_def)

text \<open>
  C3. Take any run that has read all of its console input and waits for more, at
  whichever prompt of whichever subject this is (in the model: the run on that input
  ends with the end of input). The program is then at one of the five questions, about
  a session \<open>n\<close>; the sessions alive are \<open>n\<close> and \<open>n + 1\<close>, the current and the prefetched
  one, and no record of session \<open>n\<close> has been written. If the next input is the stop
  command or an interrupt, whatever follows it, the program does what it did so far and
  then: announces the stop, sends the termination signal to both sessions, sleeps one
  second and exits with status 0. No session is alive afterwards and the results file is
  the one of that moment: nothing is written for the subject in progress and the earlier
  records are as they were.
\<close>

theorem stop_at_any_prompt:
  assumes "main a h file W pre = (tr, res, Crash EOFError)"
    and "tok = Line ''stop'' \<or> tok = Interrupt"
  shows "\<exists>n k. tr \<noteq> [] \<and> last tr = Ask n k \<and> 1 \<le> k \<and> k \<le> 5 \<and>
           live tr = {n, Suc n} \<and> (\<forall>line. Append n line \<notin> set tr) \<and>
           main a h file W (pre @ tok # post) =
             (tr @ [Stopping, terminate (darwin h) n, terminate (darwin h) (Suc n), Sleep 10],
              res, Exit 0) \<and>
           live (tr @ [Stopping, terminate (darwin h) n, terminate (darwin h) (Suc n), Sleep 10]) = {}"
proof -
  from main_eof [OF assms(1)] obtain fsp usr todo s'
    where cfg: "resolve_freesurfer_path a h = Inr fsp" "user a = Some usr"
      "worklist h file W = Inr todo"
      and sl: "session_loop a h fsp usr (initial file pre) (adjacent todo) = (tr, s', Crash EOFError)"
      and res: "res = results s'" by blast
  have tok: "is_stop tok" using assms(2) by (simp add: is_stop_def)
  from session_loop_stop [OF _ sl tok, of post]
  obtain n k s'' where
    run: "session_loop a h fsp usr (initial file (pre @ tok # post)) (adjacent todo) =
            (tr @ stop_labeling (darwin h) [n, Suc n], s'', Exit 0)"
    and r: "results s'' = results s'"
    and l: "tr \<noteq> []" "last tr = Ask n k" "1 \<le> k" "k \<le> 5"
    and t: "foldl track {} tr = {n, Suc n}"
    and ap: "\<forall>x\<in>set (appends tr). fst x < n"
    unfolding initial_more_input by auto
  have stop: "stop_labeling (darwin h) [n, Suc n] =
      [Stopping, terminate (darwin h) n, terminate (darwin h) (Suc n), Sleep 10]"
    by (simp add: stop_labeling_def)
  have m: "main a h file W (pre @ tok # post) =
      (tr @ [Stopping, terminate (darwin h) n, terminate (darwin h) (Suc n), Sleep 10], res, Exit 0)"
    using cfg run r res unfolding stop by (simp add: main_def)
  have none: "Append n line \<notin> set tr" for line
  proof
    assume "Append n line \<in> set tr"
    then have "(n, line) \<in> set (appends tr)" by (force simp: appends_def)
    with ap show False by force
  qed
  have after: "live (tr @ [Stopping, terminate (darwin h) n, terminate (darwin h) (Suc n), Sleep 10]) = {}"
    unfolding live_def using t by (auto simp: terminate_def)
  from l t none m after show ?thesis unfolding live_def by blast
qed

theorem stop_at_any_prompt_witness:
  "last (fst (waiting_at 0)) = Ask 1 1 \<and>
   stopped_at 0 (Line ''stop'') =
     (fst (waiting_at 0) @ [Stopping, Sigterm 1, Sigterm 2, Sleep 10], fst (snd (waiting_at 0)), Exit 0) \<and>
   last (fst (waiting_at 1)) = Ask 1 2 \<and>
   stopped_at 1 (Line ''stop'') =
     (fst (waiting_at 1) @ [Stopping, Sigterm 1, Sigterm 2, Sleep 10], fst (snd (waiting_at 1)), Exit 0) \<and>
   last (fst (waiting_at 2)) = Ask 1 3 \<and>
   stopped_at 2 (Line ''stop'') =
     (fst (waiting_at 2) @ [Stopping, Sigterm 1, Sigterm 2, Sleep 10], fst (snd (waiting_at 2)), Exit 0) \<and>
   stopped_at 2 Interrupt =
     (fst (waiting_at 2) @ [Stopping, Sigterm 1, Sigterm 2, Sleep 10], fst (snd (waiting_at 2)), Exit 0) \<and>
   last (fst (waiting_at 3)) = Ask 1 4 \<and>
   stopped_at 3 (Line ''stop'') =
     (fst (waiting_at 3) @ [Stopping, Sigterm 1, Sigterm 2, Sleep 10], fst (snd (waiting_at 3)), Exit 0) \<and>
   last (fst (waiting_at 4)) = Ask 1 5 \<and>
   stopped_at 4 (Line ''stop'') =
     (fst (waiting_at 4) @ [Stopping, Sigterm 1, Sigterm 2, Sleep 10], fst (snd (waiting_at 4)), Exit 0) \<and>
   map_option length (fst (snd (waiting_at 4))) = Some 1"
proof -
  have gen: "stopped_at k tok =
      (fst (waiting_at k) @ [Stopping, Sigterm 1, Sigterm 2, Sleep 10],
       fst (snd (waiting_at k)), Exit 0)"
    if "snd (snd (waiting_at k)) = Crash EOFError" "last (fst (waiting_at k)) = Ask 1 j"
      "tok = Line ''stop'' \<or> tok = Interrupt" for k tok j
  proof -
    have m: "main sample_args sample_host None three_subjects
        (sample_answers @ take k [Line ''2'', Line ''3'', Line ''1'', Line ''0'']) =
        (fst (waiting_at k), fst (snd (waiting_at k)), Crash EOFError)"
      using that(1) by (simp add: waiting_at_def prod_eq_iff)
    from stop_at_any_prompt [OF m that(3), of "[Line ''1'']"] obtain n' k'
      where l: "last (fst (waiting_at k)) = Ask n' k'"
        and r: "stopped_at k tok =
                (fst (waiting_at k) @
                   [Stopping, terminate (darwin sample_host) n',
                    terminate (darwin sample_host) (Suc n'), Sleep 10],
                 fst (snd (waiting_at k)), Exit 0)"
      unfolding stopped_at_def by blast
    from l that(2) have "n' = 1" by simp
    with r show ?thesis by (simp add: terminate_def sample_host_def)
  qed
  have e: "snd (snd (waiting_at 0)) = Crash EOFError" "last (fst (waiting_at 0)) = Ask 1 1"
    "snd (snd (waiting_at 1)) = Crash EOFError" "last (fst (waiting_at 1)) = Ask 1 2"
    "snd (snd (waiting_at 2)) = Crash EOFError" "last (fst (waiting_at 2)) = Ask 1 3"
    "snd (snd (waiting_at 3)) = Crash EOFError" "last (fst (waiting_at 3)) = Ask 1 4"
    "snd (snd (waiting_at 4)) = Crash EOFError" "last (fst (waiting_at 4)) = Ask 1 5"
    "map_option length (fst (snd (waiting_at 4))) = Some 1"
    by code_simp+
  have t: "Line ''stop'' = Line ''stop'' \<or> Line ''stop'' = Interrupt"
    "Interrupt = Line ''stop'' \<or> Interrupt = Interrupt" by simp_all
  from e gen [OF e(1,2) t(1)] gen [OF e(3,4) t(1)] gen [OF e(5,6) t(1)] gen [OF e(5,6) t(2)]
    gen [OF e(7,8) t(1)] gen [OF e(9,10) t(1)]
  show ?thesis by blast
qed

end
